theory Spec2Isabelle
  imports Main "HOL-Library.AList"
begin

section \<open>The document tree\<close>

text \<open>
  \<open>vdf.load\<close> returns nested Python dictionaries whose values are strings or
  dictionaries. A dictionary keeps its keys in insertion order, so it is an association
  list: assigning to a key that is there replaces the value in place, assigning to a new
  key appends the pair, \<open>del\<close> removes the key.
\<close>

datatype node = Leaf string | Section "(string \<times> node) list"

type_synonym pydict = "(string \<times> node) list"

text \<open>The exceptions that the modelled code can raise.\<close>

datatype error =
    KeyError string
  | TypeError
  | AttributeError
  | FileNotFoundError
  | SyntaxError

subsection \<open>Python operations on a tree node\<close>

text \<open>\<open>s.startswith(p)\<close> and the substring test \<open>p in s\<close> of two strings.\<close>

fun startswith :: "string \<Rightarrow> string \<Rightarrow> bool" where
  "startswith s [] = True"
| "startswith [] (p # ps) = False"
| "startswith (c # s) (p # ps) = (c = p \<and> startswith s ps)"

fun str_contains :: "string \<Rightarrow> string \<Rightarrow> bool" where
  "str_contains [] p = (p = [])"
| "str_contains (c # s) p = (startswith (c # s) p \<or> str_contains s p)"

text \<open>
  \<open>k in x\<close>: membership of the key when \<open>x\<close> is a dictionary, the substring test
  when \<open>x\<close> is a string.
\<close>

fun py_in :: "string \<Rightarrow> node \<Rightarrow> bool" where
  "py_in k (Section d) = (map_of d k \<noteq> None)"
| "py_in k (Leaf s) = str_contains s k"

text \<open>
  \<open>x[k]\<close>, \<open>x[k] = v\<close> and \<open>del x[k]\<close> with a string key: a missing key raises
  KeyError, and a string \<open>x\<close> raises TypeError (its indices must be integers, and it
  supports neither item assignment nor item deletion).
\<close>

fun getitem :: "node \<Rightarrow> string \<Rightarrow> error + node" where
  "getitem (Section d) k = (case map_of d k of None \<Rightarrow> Inl (KeyError k) | Some v \<Rightarrow> Inr v)"
| "getitem (Leaf s) k = Inl TypeError"

fun setitem :: "node \<Rightarrow> string \<Rightarrow> node \<Rightarrow> error + node" where
  "setitem (Section d) k v = Inr (Section (AList.update k v d))"
| "setitem (Leaf s) k v = Inl TypeError"

fun delitem :: "node \<Rightarrow> string \<Rightarrow> error + node" where
  "delitem (Section d) k =
     (if map_of d k = None then Inl (KeyError k) else Inr (Section (AList.delete k d)))"
| "delitem (Leaf s) k = Inl TypeError"

text \<open>\<open>x.items()\<close>: a string has no such attribute.\<close>

fun items :: "node \<Rightarrow> error + pydict" where
  "items (Section d) = Inr d"
| "items (Leaf s) = Inl AttributeError"

section \<open>The main window\<close>

text \<open>
  The attributes of the window that the methods below use: the two dictionaries of lines
  64 and 67 (local id to loaded data, user name to local id), the Tk variables of lines
  70 to 72 and the text of the entry widget of line 131. The statistics variable holds the
  two numbers that its text is formatted from.
\<close>

record main_window =
  user_datas :: "(string \<times> node) list"
  user_local_ids :: "(string \<times> string) list"
  user_choice :: string
  ops_entry :: string
  overwrite :: bool
  statistics :: "nat \<times> nat"

text \<open>The module constant of line 35.\<close>

definition OVERWRITE :: bool where
  "OVERWRITE = False"

subsection \<open>The loop of \<open>set_launch_options\<close>\<close>

text \<open>
  What the two \<open>print\<close> calls of lines 208 and 209 report: the application id and the
  launch options it already has.
\<close>

type_synonym advisory = "string \<times> node"

text \<open>
  Lines 200 to 224, the body of the loop for one \<open>(appid, appconf)\<close> item. It returns the
  application's configuration as the body leaves it, the counter and the lines printed so
  far; an exception raised by the body is \<open>Inl\<close>.
\<close>

definition loop_body ::
  "string \<Rightarrow> string \<Rightarrow> node \<Rightarrow> nat \<Rightarrow> advisory list \<Rightarrow> error + (node \<times> nat \<times> advisory list)"
where
  "loop_body new_option appid appconf altered out =
     (if py_in ''LaunchOptions'' appconf then
        (case getitem appconf ''LaunchOptions'' of
           Inl e \<Rightarrow> Inl e
         | Inr ops \<Rightarrow>
             if new_option \<noteq> [] then
               (if ops \<noteq> Leaf new_option then
                  (if OVERWRITE then
                     (case setitem appconf ''LaunchOptions'' (Leaf new_option) of
                        Inl e \<Rightarrow> Inl e
                      | Inr c \<Rightarrow> Inr (c, altered + 1, out @ [(appid, ops)]))
                   else Inr (appconf, altered, out @ [(appid, ops)]))
                else Inr (appconf, altered, out))
             else
               (case delitem appconf ''LaunchOptions'' of
                  Inl e \<Rightarrow> Inl e
                | Inr c \<Rightarrow> Inr (c, altered + 1, out)))
      else if new_option \<noteq> [] then
        (case setitem appconf ''LaunchOptions'' (Leaf new_option) of
           Inl e \<Rightarrow> Inl e
         | Inr c \<Rightarrow> Inr (c, altered + 1, out))
      else Inr (appconf, altered, out))"

text \<open>
  Line 198: the loop over the items of the \<open>apps\<close> dictionary, in the dictionary's order.
  The body changes the dictionary of one application and never the \<open>apps\<close> dictionary
  itself, so the loop returns the items with each configuration as the body left it.
\<close>

fun app_loop ::
  "string \<Rightarrow> pydict \<Rightarrow> nat \<Rightarrow> advisory list \<Rightarrow> error + (pydict \<times> nat \<times> advisory list)"
where
  "app_loop new_option [] altered out = Inr ([], altered, out)"
| "app_loop new_option ((appid, appconf) # rest) altered out =
     (case loop_body new_option appid appconf altered out of
        Inl e \<Rightarrow> Inl e
      | Inr (c, altered', out') \<Rightarrow>
          (case app_loop new_option rest altered' out' of
             Inl e \<Rightarrow> Inl e
           | Inr (cs, altered'', out'') \<Rightarrow> Inr ((appid, c) # cs, altered'', out'')))"

text \<open>
  Lines 194 to 224 on the items of \<open>cur_appconfs\<close>: the new options are the text of the
  entry widget, and the counter starts at 0.
\<close>

definition edit_apps :: "main_window \<Rightarrow> pydict \<Rightarrow> error + (pydict \<times> nat \<times> advisory list)" where
  "edit_apps w apps = app_loop (ops_entry w) apps 0 []"

subsection \<open>Files, dialogs and the rest of the window's methods\<close>

text \<open>
  A path is the list of the components that \<open>os.path.join\<close> joins, and the file system
  maps a path to the text of the file. The \<open>userdata\<close> directory (line 43) depends on
  the platform and the environment, so it is a parameter. So are \<open>vdf.load\<close> and
  \<open>vdf.dump\<close> of the imported package, on the text of the file.
\<close>

type_synonym path = "string list"

type_synonym filesystem = "path \<Rightarrow> string option"

text \<open>
  The message box of a call: \<open>showerror\<close> with its title and message, or \<open>showinfo\<close>
  with its title and the number that its message is formatted from.
\<close>

datatype dialog = ShowError string string | ShowInfo string nat

text \<open>Sequencing: an exception of the first step leaves out the steps after it.\<close>

definition bind_err :: "error + 'a \<Rightarrow> ('a \<Rightarrow> error + 'b) \<Rightarrow> error + 'b" where
  "bind_err m f = (case m of Inl e \<Rightarrow> Inl e | Inr x \<Rightarrow> f x)"

text \<open>Lines 80 to 94.\<close>

definition get_config_file_path :: "string \<Rightarrow> string \<Rightarrow> path" where
  "get_config_file_path userdata_dir loc_user_id =
     [userdata_dir, loc_user_id, ''config'', ''localconfig.vdf'']"

text \<open>A chain of subscripts \<open>x[k1][k2]...\<close>.\<close>

fun getpath :: "node \<Rightarrow> string list \<Rightarrow> error + node" where
  "getpath n [] = Inr n"
| "getpath n (k # ks) = bind_err (getitem n k) (\<lambda>v. getpath v ks)"

text \<open>
  The tree with the node at the end of a chain of subscripts replaced by another; a
  tree in which the chain leads nowhere stays as it is.
\<close>

fun putpath :: "string list \<Rightarrow> node \<Rightarrow> node \<Rightarrow> node" where
  "putpath [] new n = new"
| "putpath (k # ks) new (Leaf s) = Leaf s"
| "putpath (k # ks) new (Section d) =
     (case map_of d k of
        None \<Rightarrow> Section d
      | Some v \<Rightarrow> Section (AList.update k (putpath ks new v) d))"

text \<open>
  Lines 96 to 106. The user name becomes a dictionary key, so it must be a string: a
  dictionary there is unhashable.
\<close>

definition load_user_config ::
  "(string \<Rightarrow> error + node) \<Rightarrow> string \<Rightarrow> filesystem \<Rightarrow> main_window \<Rightarrow> string
     \<Rightarrow> error + main_window"
where
  "load_user_config vdf_load userdata_dir fs w loc_user_id =
     (case fs (get_config_file_path userdata_dir loc_user_id) of
        None \<Rightarrow> Inl FileNotFoundError
      | Some text \<Rightarrow>
          bind_err (vdf_load text) (\<lambda>data.
          bind_err (getpath data [''UserLocalConfigStore'', ''friends'', loc_user_id, ''name''])
            (\<lambda>name.
               case name of
                 Section d \<Rightarrow> Inl TypeError
               | Leaf user \<Rightarrow>
                   Inr (w\<lparr>user_local_ids := AList.update user loc_user_id (user_local_ids w),
                          user_datas := AList.update loc_user_id data (user_datas w)\<rparr>))))"

text \<open>Lines 108 to 116, the two properties.\<close>

definition cur_loc_id :: "main_window \<Rightarrow> error + string" where
  "cur_loc_id w =
     (case map_of (user_local_ids w) (user_choice w) of
        None \<Rightarrow> Inl (KeyError (user_choice w))
      | Some i \<Rightarrow> Inr i)"

definition cur_data :: "main_window \<Rightarrow> error + node" where
  "cur_data w =
     bind_err (cur_loc_id w) (\<lambda>i.
       case map_of (user_datas w) i of None \<Rightarrow> Inl (KeyError i) | Some data \<Rightarrow> Inr data)"

definition apps_path :: "string list" where
  "apps_path = [''UserLocalConfigStore'', ''Software'', ''Valve'', ''Steam'', ''apps'']"

definition cur_appconfs :: "main_window \<Rightarrow> error + node" where
  "cur_appconfs w = bind_err (cur_data w) (\<lambda>data. getpath data apps_path)"

text \<open>
  Lines 178 to 186. The text of the label is a format of two numbers: the number of
  applications and the number of those that have launch options.
\<close>

definition refresh_statistics :: "main_window \<Rightarrow> error + main_window" where
  "refresh_statistics w =
     bind_err (cur_appconfs w) (\<lambda>appconfs.
     bind_err (items appconfs) (\<lambda>apps.
       Inr (w\<lparr>statistics :=
         (length apps, length (filter (\<lambda>(appid, appconf). py_in ''LaunchOptions'' appconf) apps))\<rparr>)))"

subsection \<open>\<open>set_launch_options\<close>\<close>

text \<open>
  What a call that returns leaves behind: the window, the file system, the files it
  wrote, the counter, the lines it printed and the dialog it showed.
\<close>

record outcome =
  window :: main_window
  files :: filesystem
  written :: "(path \<times> string) list"
  altered :: nat
  printed :: "advisory list"
  shown :: dialog

text \<open>
  The loop changes the dictionaries of the applications in place, inside the tree that
  \<open>user_datas\<close> holds for the selected user. So the window after the loop holds that
  tree with the \<open>apps\<close> section as the loop left it.
\<close>

definition store_appconfs :: "main_window \<Rightarrow> pydict \<Rightarrow> error + main_window" where
  "store_appconfs w apps' =
     bind_err (cur_loc_id w) (\<lambda>loc.
     bind_err (cur_data w) (\<lambda>data.
       Inr (w\<lparr>user_datas :=
         AList.update loc (putpath apps_path (Section apps') data) (user_datas w)\<rparr>)))"

text \<open>
  Lines 188 to 236. Once the file is read, the loop is the last step that can raise, so
  a call that raises has written nothing, and the next call reads the file again at line
  192. Opening the file for writing creates or replaces it, and the write itself is taken
  to succeed.
\<close>

definition set_launch_options ::
  "(string \<Rightarrow> error + node) \<Rightarrow> (node \<Rightarrow> string) \<Rightarrow> string \<Rightarrow> filesystem \<Rightarrow> main_window
     \<Rightarrow> error + outcome"
where
  "set_launch_options vdf_load vdf_dump userdata_dir fs w =
     bind_err (cur_loc_id w) (\<lambda>loc0.
     bind_err (load_user_config vdf_load userdata_dir fs w loc0) (\<lambda>w1.
     bind_err (cur_appconfs w1) (\<lambda>appconfs.
     bind_err (items appconfs) (\<lambda>apps.
     bind_err (edit_apps w1 apps) (\<lambda>(apps', n, out).
     bind_err (store_appconfs w1 apps') (\<lambda>w2.
       if n = 0 then
         bind_err (refresh_statistics w2) (\<lambda>w3.
           Inr \<lparr>window = w3, files = fs, written = [], altered = n, printed = out,
                shown = ShowError ''No changes made''
                  ''None of the launch options were altered.''\<rparr>)
       else
         bind_err (cur_loc_id w2) (\<lambda>loc.
         bind_err (cur_data w2) (\<lambda>data.
         bind_err (refresh_statistics w2) (\<lambda>w3.
           Inr \<lparr>window = w3,
                files = fs(get_config_file_path userdata_dir loc \<mapsto> vdf_dump data),
                written = [(get_config_file_path userdata_dir loc, vdf_dump data)],
                altered = n, printed = out,
                shown = ShowInfo ''Changes made'' n\<rparr>)))))))))"

text \<open>The section of the scenarios A, B and C.\<close>

definition scenario_apps :: pydict where
  "scenario_apps =
     [(''10'', Section [(''LaunchOptions'', Leaf ''-a'')]),
      (''20'', Section []),
      (''30'', Section [(''LaunchOptions'', Leaf ''-x'')])]"

text \<open>A window with no user loaded, an empty entry and the Overwrite box unchecked.\<close>

definition window0 :: main_window where
  "window0 = \<lparr>user_datas = [], user_local_ids = [], user_choice = [], ops_entry = [],
     overwrite = False, statistics = (0, 0)\<rparr>"

section \<open>Notions used by the properties\<close>

text \<open>An application's configuration that is a dictionary, as \<open>vdf.load\<close> gives it.\<close>

fun is_section :: "node \<Rightarrow> bool" where
  "is_section (Section d) = True"
| "is_section (Leaf s) = False"

text \<open>What an application's configuration maps \<open>LaunchOptions\<close> to, if anything.\<close>

fun launch_options_of :: "node \<Rightarrow> node option" where
  "launch_options_of (Section d) = map_of d ''LaunchOptions''"
| "launch_options_of (Leaf s) = None"

text \<open>
  An application's configuration with the value of every field other than
  \<open>LaunchOptions\<close> changed by \<open>g\<close>.
\<close>

fun map_other_fields :: "(node \<Rightarrow> node) \<Rightarrow> node \<Rightarrow> node" where
  "map_other_fields g (Section d) =
     Section (map (\<lambda>(k, v). if k = ''LaunchOptions'' then (k, v) else (k, g v)) d)"
| "map_other_fields g (Leaf s) = Leaf s"

text \<open>The fields of an application other than \<open>LaunchOptions\<close>, in their order.\<close>

fun other_fields :: "node \<Rightarrow> pydict" where
  "other_fields (Section d) = filter (\<lambda>(k, v). k \<noteq> ''LaunchOptions'') d"
| "other_fields (Leaf s) = []"

text \<open>The keys of an application's configuration, in their order.\<close>

fun field_keys :: "node \<Rightarrow> string list" where
  "field_keys (Section d) = map fst d"
| "field_keys (Leaf s) = []"

text \<open>
  What lines 208 and 209 print for one item: the launch options that the application
  has, when the new options are not empty and differ from them.
\<close>

definition advisory_of :: "string \<Rightarrow> string \<times> node \<Rightarrow> advisory list" where
  "advisory_of new item =
     (case launch_options_of (snd item) of
        None \<Rightarrow> []
      | Some v \<Rightarrow> if new \<noteq> [] \<and> v \<noteq> Leaf new then [(fst item, v)] else [])"

text \<open>
  A configuration file's document with the given \<open>apps\<close> section, for the user
  \<open>ann\<close> whose local id is \<open>42\<close>, the window that has this user selected, and a
  file system that holds the user's configuration file.
\<close>

definition scenario_document :: "pydict \<Rightarrow> node" where
  "scenario_document apps =
     Section [(''UserLocalConfigStore'', Section
       [(''friends'', Section [(''42'', Section [(''name'', Leaf ''ann'')])]),
        (''Software'', Section [(''Valve'', Section [(''Steam'', Section
           [(''apps'', Section apps)])])])])]"

definition scenario_window :: main_window where
  "scenario_window = window0\<lparr>user_local_ids := [(''ann'', ''42'')], user_choice := ''ann''\<rparr>"

definition scenario_files :: filesystem where
  "scenario_files = Map.empty(get_config_file_path ''userdata'' ''42'' \<mapsto> ''localconfig'')"

text \<open>
  Two chains of subscripts that part ways: at some position that both have, their keys
  differ.
\<close>

fun diverge :: "string list \<Rightarrow> string list \<Rightarrow> bool" where
  "diverge (a # as) (b # bs) = (a \<noteq> b \<or> diverge as bs)"
| "diverge as bs = False"

text \<open>
  A loader and a dump for the scenarios, in place of \<open>vdf.load\<close> and \<open>vdf.dump\<close>: the
  loader reads the scenario's document from the text of the scenario's file and nothing
  from any other text, and the dump writes the keys and the values of a tree one after
  the other.
\<close>

definition scenario_vdf_load :: "string \<Rightarrow> error + node" where
  "scenario_vdf_load text =
     (if text = ''localconfig'' then Inr (scenario_document scenario_apps) else Inl SyntaxError)"

fun scenario_vdf_dump :: "node \<Rightarrow> string" where
  "scenario_vdf_dump (Leaf s) = ''='' @ s @ '';''"
| "scenario_vdf_dump (Section d) =
     ''{'' @ concat (map (\<lambda>(k, v). k @ scenario_vdf_dump v) d) @ ''}''"


section \<open>The format of the configuration file\<close>

text \<open>
  The program reads and writes the configuration file with \<open>vdf.load\<close> and
  \<open>vdf.dump\<close> of the imported \<open>vdf\<close> package, whose code is not among the sources of
  the repository. The definitions of this section model the parser and the serializer
  from sections 3, 4.1 and 6 of the specification.
\<close>

text \<open>
  Modelled from the spec: the reasons of the \<open>ParseError\<close> of \<open>Parse\<close>, which is
  \<open>vdf.load\<close> of the \<open>vdf\<close> package: a quoted string that is not terminated, a section
  that is opened and never closed, a section that is closed and was never opened, a key
  with no value after it, and input that is no token or stands where no token of its
  class may stand.
\<close>

datatype reason =
    Unterminated_string
  | Unclosed_section
  | Unopened_section
  | Missing_value
  | Unexpected_input

text \<open>
  Modelled from the spec: the token classes of \<open>Parse\<close> (\<open>vdf.load\<close>). A token is a
  quoted string or one of the two braces; where the input stops being well-formed, the
  last token says what is wrong with it.
\<close>

datatype token = Quoted string | LBrace | RBrace | Bad reason

text \<open>
  Modelled from the spec: the \<open>ParseError\<close> of \<open>Parse\<close> (\<open>vdf.load\<close>), which carries
  a byte offset and a reason.
\<close>

datatype parse_error = ParseError nat reason

text \<open>
  Modelled from the spec: the whitespace of the wire format of \<open>vdf.load\<close>, which is
  spaces, tabs and newlines.
\<close>

definition is_space :: "char \<Rightarrow> bool" where
  "is_space c = (c = CHR '' '' \<or> c = CHR 0x09 \<or> c = CHR 0x0A)"

text \<open>
  Modelled from the spec: the states of the scan of \<open>Parse\<close> (\<open>vdf.load\<close>) for tokens:
  between tokens, inside a quoted string (with the offset of its opening quote and its
  characters so far, last first), or inside a quoted string just after a backslash.
\<close>

datatype lex_state = Between | In_string nat string | Escaped nat string

text \<open>
  Modelled from the spec: the tokens of an input of \<open>Parse\<close> (\<open>vdf.load\<close>), each with
  the offset of its first byte. Whitespace between tokens is skipped. A quoted string
  ends at the next double quote that no backslash escapes; a backslash before a double
  quote or a backslash stands for that character, and before any other character it
  stands for itself.
\<close>

fun lex :: "lex_state \<Rightarrow> nat \<Rightarrow> string \<Rightarrow> (nat \<times> token) list" where
  "lex Between pos [] = []"
| "lex (In_string start acc) pos [] = [(pos, Bad Unterminated_string)]"
| "lex (Escaped start acc) pos [] = [(pos, Bad Unterminated_string)]"
| "lex Between pos (c # cs) =
     (if c = CHR 0x22 then lex (In_string pos []) (pos + 1) cs
      else if c = CHR ''{'' then (pos, LBrace) # lex Between (pos + 1) cs
      else if c = CHR ''}'' then (pos, RBrace) # lex Between (pos + 1) cs
      else if is_space c then lex Between (pos + 1) cs
      else [(pos, Bad Unexpected_input)])"
| "lex (In_string start acc) pos (c # cs) =
     (if c = CHR 0x22 then (start, Quoted (rev acc)) # lex Between (pos + 1) cs
      else if c = CHR 0x5C then lex (Escaped start acc) (pos + 1) cs
      else lex (In_string start (c # acc)) (pos + 1) cs)"
| "lex (Escaped start acc) pos (c # cs) =
     (if c = CHR 0x22 \<or> c = CHR 0x5C then lex (In_string start (c # acc)) (pos + 1) cs
      else lex (In_string start (c # CHR 0x5C # acc)) (pos + 1) cs)"

text \<open>
  Modelled from the spec: the grammar of \<open>Parse\<close> (\<open>vdf.load\<close>) on the tokens. A section
  is a sequence of keys, each followed by its value, a quoted string or a section in
  braces; the outermost section has no braces. The parser looks one token ahead of the
  key. It keeps the section it is reading and, on a stack, the sections that are open
  around it, each with the key that the section inside it will get, as the calls of a
  recursive descent would. A key that is already in the section gets the new value. The
  first argument is the offset of the end of the input.
\<close>

fun parse_tokens ::
  "nat \<Rightarrow> pydict \<Rightarrow> (string \<times> pydict) list \<Rightarrow> (nat \<times> token) list \<Rightarrow> parse_error + pydict"
where
  "parse_tokens eof cur stack [] =
     (if stack = [] then Inr cur else Inl (ParseError eof Unclosed_section))"
| "parse_tokens eof cur stack ((p, Bad r) # ts) = Inl (ParseError p r)"
| "parse_tokens eof cur stack ((p, LBrace) # ts) = Inl (ParseError p Unexpected_input)"
| "parse_tokens eof cur stack ((p, RBrace) # ts) =
     (case stack of
        [] \<Rightarrow> Inl (ParseError p Unopened_section)
      | (k, parent) # outer \<Rightarrow> parse_tokens eof (AList.update k (Section cur) parent) outer ts)"
| "parse_tokens eof cur stack [(p, Quoted k)] = Inl (ParseError eof Missing_value)"
| "parse_tokens eof cur stack ((p, Quoted k) # (q, Quoted v) # ts) =
     parse_tokens eof (AList.update k (Leaf v) cur) stack ts"
| "parse_tokens eof cur stack ((p, Quoted k) # (q, LBrace) # ts) =
     parse_tokens eof [] ((k, cur) # stack) ts"
| "parse_tokens eof cur stack ((p, Quoted k) # (q, RBrace) # ts) =
     Inl (ParseError q Missing_value)"
| "parse_tokens eof cur stack ((p, Quoted k) # (q, Bad r) # ts) = Inl (ParseError q r)"

text \<open>
  Modelled from the spec: \<open>Parse\<close>, which is \<open>vdf.load\<close> of the \<open>vdf\<close> package, from the
  bytes of the input to the root section of the document or a \<open>ParseError\<close>.
\<close>

definition Parse :: "string \<Rightarrow> parse_error + pydict" where
  "Parse b = parse_tokens (length b) [] [] (lex Between 0 b)"

text \<open>
  Modelled from the spec: the escaping of \<open>Serialize\<close>, which is \<open>vdf.dump\<close> of the
  \<open>vdf\<close> package: a backslash before every double quote and every backslash of a key
  or a value.
\<close>

fun escape :: "string \<Rightarrow> string" where
  "escape [] = []"
| "escape (c # cs) =
     (if c = CHR 0x22 \<or> c = CHR 0x5C then CHR 0x5C # c # escape cs else c # escape cs)"

text \<open>
  Modelled from the spec: a key or a value as \<open>Serialize\<close> (\<open>vdf.dump\<close>) writes it,
  escaped and between double quotes.
\<close>

definition quoted :: "string \<Rightarrow> string" where
  "quoted s = CHR 0x22 # escape s @ [CHR 0x22]"

text \<open>
  Modelled from the spec: the lines that \<open>Serialize\<close> (\<open>vdf.dump\<close>) emits for the pairs
  of a section at a nesting depth, in the stored order of the keys: a key and its quoted
  value on one line, or a key on one line and the nested section in braces on the lines
  after it; one tab of indentation for each level of nesting, and a newline at the end of
  every line.
\<close>

fun emit :: "nat \<Rightarrow> pydict \<Rightarrow> string" where
  "emit depth [] = []"
| "emit depth ((k, Leaf v) # rest) =
     replicate depth (CHR 0x09) @ quoted k @ [CHR '' ''] @ quoted v @ [CHR 0x0A]
       @ emit depth rest"
| "emit depth ((k, Section d) # rest) =
     replicate depth (CHR 0x09) @ quoted k @ [CHR 0x0A]
       @ replicate depth (CHR 0x09) @ [CHR ''{'', CHR 0x0A]
       @ emit (Suc depth) d
       @ replicate depth (CHR 0x09) @ [CHR ''}'', CHR 0x0A]
       @ emit depth rest"

text \<open>
  Modelled from the spec: \<open>Serialize\<close>, which is \<open>vdf.dump\<close> of the \<open>vdf\<close> package, from
  the root section of a document to the bytes of the output.
\<close>

definition Serialize :: "pydict \<Rightarrow> string" where
  "Serialize d = emit 0 d"

text \<open>
  The invariant of a section in section 3 of the specification: its keys are unique, and
  so are the keys of every section inside it.
\<close>

fun unique_keys :: "node \<Rightarrow> bool" where
  "unique_keys (Leaf s) = True"
| "unique_keys (Section d) = (distinct (map fst d) \<and> (\<forall>p \<in> set d. unique_keys (snd p)))"

text \<open>The tokens that the serialization of the pairs of a section consists of.\<close>

fun tokens_of :: "pydict \<Rightarrow> token list" where
  "tokens_of [] = []"
| "tokens_of ((k, Leaf v) # rest) = Quoted k # Quoted v # tokens_of rest"
| "tokens_of ((k, Section d) # rest) =
     Quoted k # LBrace # tokens_of d @ RBrace # tokens_of rest"

text \<open>
  The bytes of a small configuration file: the section \<open>apps\<close> with one application,
  whose launch options end in an escaped double quote.
\<close>

definition sample_bytes :: string where
  "sample_bytes =
     [CHR 0x22] @ ''apps'' @ [CHR 0x22, CHR 0x0A] @ ''{'' @ [CHR 0x0A, CHR 0x09, CHR 0x22]
       @ ''10'' @ [CHR 0x22] @ '' { '' @ [CHR 0x22] @ ''LaunchOptions'' @ [CHR 0x22, CHR 0x09, CHR 0x22]
       @ ''-'' @ [CHR 0x5C, CHR 0x22, CHR 0x22] @ '' }'' @ [CHR 0x0A] @ ''}'' @ [CHR 0x0A]"


section \<open>Properties of the loop\<close>

subsection \<open>The loop, one item at a time\<close>

lemma loop_body_shift:
  "loop_body new appid c a out =
     (case loop_body new appid c 0 [] of
        Inl e \<Rightarrow> Inl e
      | Inr (c', n, p) \<Rightarrow> Inr (c', a + n, out @ p))"
  by (simp add: loop_body_def split: sum.splits)

lemma app_loop_shift:
  "app_loop new apps a out =
     (case app_loop new apps 0 [] of
        Inl e \<Rightarrow> Inl e
      | Inr (apps', n, p) \<Rightarrow> Inr (apps', a + n, out @ p))"
proof (induction apps arbitrary: a out)
  case Nil
  show ?case by simp
next
  case (Cons x apps)
  obtain appid c where x: "x = (appid, c)" by (cases x)
  show ?case
  proof (cases "loop_body new appid c 0 []")
    case (Inl e)
    then show ?thesis using x loop_body_shift [of new appid c a out] by simp
  next
    case (Inr r)
    obtain c' n p where r: "r = (c', n, p)" by (cases r)
    have b: "loop_body new appid c a out = Inr (c', a + n, out @ p)"
      using Inr r loop_body_shift [of new appid c a out] by simp
    show ?thesis
      using x Inr r b Cons.IH [of "a + n" "out @ p"] Cons.IH [of n p]
      by (simp split: sum.splits)
  qed
qed

lemma app_loop_Cons0:
  "app_loop new ((appid, c) # rest) 0 [] =
     (case loop_body new appid c 0 [] of
        Inl e \<Rightarrow> Inl e
      | Inr (c', k, p) \<Rightarrow>
          (case app_loop new rest 0 [] of
             Inl e \<Rightarrow> Inl e
           | Inr (cs, n, q) \<Rightarrow> Inr ((appid, c') # cs, k + n, p @ q)))"
proof (cases "loop_body new appid c 0 []")
  case (Inl e)
  then show ?thesis by simp
next
  case (Inr r)
  obtain c' k p where r: "r = (c', k, p)" by (cases r)
  show ?thesis
    using Inr r app_loop_shift [of new rest k p] by (simp split: sum.splits)
qed

lemma app_loop_ConsE:
  assumes "app_loop new ((appid, c) # rest) 0 [] = Inr (apps', n, out)"
  obtains c' k p cs m q where
    "loop_body new appid c 0 [] = Inr (c', k, p)"
    "app_loop new rest 0 [] = Inr (cs, m, q)"
    "apps' = (appid, c') # cs" "n = k + m" "out = p @ q"
  using assms unfolding app_loop_Cons0
  by (auto split: sum.splits)

lemma loop_body_Section:
  "loop_body new appid (Section d) a out = Inr
     (case map_of d ''LaunchOptions'' of
        None \<Rightarrow>
          if new \<noteq> [] then (Section (AList.update ''LaunchOptions'' (Leaf new) d), a + 1, out)
          else (Section d, a, out)
      | Some ops \<Rightarrow>
          if new \<noteq> [] then
            (if ops \<noteq> Leaf new then
               (if OVERWRITE then
                  (Section (AList.update ''LaunchOptions'' (Leaf new) d), a + 1, out @ [(appid, ops)])
                else (Section d, a, out @ [(appid, ops)]))
             else (Section d, a, out))
          else (Section (AList.delete ''LaunchOptions'' d), a + 1, out))"
  by (simp add: loop_body_def split: option.splits)

lemma loop_body_Leaf:
  "loop_body new appid (Leaf s) a out =
     (if str_contains s ''LaunchOptions'' \<or> new \<noteq> [] then Inl TypeError
      else Inr (Leaf s, a, out))"
  by (simp add: loop_body_def)

lemma loop_body_counts:
  assumes "loop_body new appid c 0 [] = Inr (c', k, p)"
  shows "(k = 1 \<and> launch_options_of c \<noteq> launch_options_of c') \<or> (k = 0 \<and> c' = c)"
proof (cases c)
  case (Leaf s)
  then show ?thesis using assms by (simp add: loop_body_Leaf split: if_splits)
next
  case (Section d)
  then show ?thesis using assms
    by (auto simp: loop_body_Section update_conv' delete_conv' split: option.splits if_splits)
qed

lemma app_loop_counts:
  "app_loop new apps 0 [] = Inr (apps', n, out) \<Longrightarrow>
     n = length (filter (\<lambda>(x, y). launch_options_of (snd x) \<noteq> launch_options_of (snd y))
           (zip apps apps'))"
proof (induction apps arbitrary: apps' n out)
  case Nil
  then show ?case by simp
next
  case (Cons x apps)
  obtain appid c where x: "x = (appid, c)" by (cases x)
  from Cons.prems obtain c' k p cs m q where
    b: "loop_body new appid c 0 [] = Inr (c', k, p)" and
    r: "app_loop new apps 0 [] = Inr (cs, m, q)" and
    e: "apps' = (appid, c') # cs" "n = k + m" "out = p @ q"
    unfolding x by (rule app_loop_ConsE)
  note ih = Cons.IH [OF r]
  from loop_body_counts [OF b] show ?case
  proof
    assume "k = 1 \<and> launch_options_of c \<noteq> launch_options_of c'"
    then show ?thesis unfolding x e by (simp add: ih [symmetric])
  next
    assume "k = 0 \<and> c' = c"
    then show ?thesis unfolding x e by (simp add: ih [symmetric])
  qed
qed

lemma app_loop_zero:
  "app_loop new apps 0 [] = Inr (apps', 0, out) \<Longrightarrow> apps' = apps"
proof (induction apps arbitrary: apps' out)
  case Nil
  then show ?case by simp
next
  case (Cons x apps)
  obtain appid c where x: "x = (appid, c)" by (cases x)
  from Cons.prems obtain c' k p cs m q where
    b: "loop_body new appid c 0 [] = Inr (c', k, p)" and
    r: "app_loop new apps 0 [] = Inr (cs, m, q)" and
    e: "apps' = (appid, c') # cs" "0 = k + m" "out = p @ q"
    unfolding x by (rule app_loop_ConsE)
  from e(2) have km: "k = 0" "m = 0" by simp_all
  from r km have "cs = apps" by (simp add: Cons.IH)
  moreover from loop_body_counts [OF b] km have "c' = c" by simp
  ultimately show ?case unfolding x e(1) by simp
qed

lemma loop_body_Section_total:
  "\<exists>c' k p. loop_body new appid (Section d) a out = Inr (c', k, p)"
proof -
  have "\<exists>r. loop_body new appid (Section d) a out = Inr r"
    unfolding loop_body_Section by (rule exI) (rule refl)
  then obtain r where r: "loop_body new appid (Section d) a out = Inr r" ..
  obtain c' k p where "r = (c', k, p)" by (cases r)
  with r show ?thesis by blast
qed

lemma app_loop_total:
  "\<forall>c \<in> snd ` set apps. is_section c \<Longrightarrow> \<exists>apps' n out. app_loop new apps 0 [] = Inr (apps', n, out)"
proof (induction apps)
  case Nil
  then show ?case by simp
next
  case (Cons x apps)
  obtain appid c where x: "x = (appid, c)" by (cases x)
  have "is_section c" using Cons.prems x by simp
  then obtain d where c: "c = Section d" by (cases c) simp_all
  have "\<forall>c \<in> snd ` set apps. is_section c" using Cons.prems by simp
  from Cons.IH [OF this] obtain cs m q where r: "app_loop new apps 0 [] = Inr (cs, m, q)"
    by blast
  obtain c' k p where b: "loop_body new appid c 0 [] = Inr (c', k, p)"
    unfolding c using loop_body_Section_total by blast
  show ?case unfolding x app_loop_Cons0 b r by simp
qed

lemma app_loop_keys:
  "app_loop new apps 0 [] = Inr (apps', n, out) \<Longrightarrow> map fst apps' = map fst apps"
proof (induction apps arbitrary: apps' n out)
  case Nil
  then show ?case by simp
next
  case (Cons x apps)
  obtain appid c where x: "x = (appid, c)" by (cases x)
  from Cons.prems obtain c' k p cs m q where
    b: "loop_body new appid c 0 [] = Inr (c', k, p)" and
    r: "app_loop new apps 0 [] = Inr (cs, m, q)" and
    e: "apps' = (appid, c') # cs"
    unfolding x by (rule app_loop_ConsE)
  from Cons.IH [OF r] show ?case using x e by simp
qed

lemma app_loop_nth:
  "app_loop new apps 0 [] = Inr (apps', n, out) \<Longrightarrow> i < length apps \<Longrightarrow>
     \<exists>k p. loop_body new (fst (apps ! i)) (snd (apps ! i)) 0 [] = Inr (snd (apps' ! i), k, p)"
proof (induction apps arbitrary: apps' n out i)
  case Nil
  then show ?case by simp
next
  case (Cons x apps)
  obtain appid c where x: "x = (appid, c)" by (cases x)
  from Cons.prems(1) obtain c' k p cs m q where
    b: "loop_body new appid c 0 [] = Inr (c', k, p)" and
    r: "app_loop new apps 0 [] = Inr (cs, m, q)" and
    e: "apps' = (appid, c') # cs"
    unfolding x by (rule app_loop_ConsE)
  show ?case
  proof (cases i)
    case 0
    then show ?thesis using b x e by auto
  next
    case (Suc j)
    then show ?thesis using Cons.IH [OF r, of j] Cons.prems(2) x e by simp
  qed
qed


lemma nth_keys:
  assumes "app_loop new apps 0 [] = Inr (apps', n, out)" "i < length apps"
  shows "fst (apps' ! i) = fst (apps ! i)" "length apps' = length apps"
proof -
  have k: "map fst apps' = map fst apps" using assms(1) by (rule app_loop_keys)
  then show l: "length apps' = length apps" by (metis length_map)
  have "map fst apps' ! i = map fst apps ! i" using k by simp
  then show "fst (apps' ! i) = fst (apps ! i)" using assms(2) l by simp
qed

lemma nth_section:
  assumes "\<forall>c \<in> snd ` set apps. is_section c" "i < length apps"
  obtains d where "snd (apps ! i) = Section d"
proof -
  have "snd (apps ! i) \<in> snd ` set apps" using assms(2) by simp
  then have "is_section (snd (apps ! i))" using assms(1) by blast
  then show ?thesis using that by (cases "snd (apps ! i)") simp_all
qed

text \<open>
  C1: with the Overwrite box checked, an application whose launch options differ from the
  new ones should get the new ones and be counted, so that scenario B alters 2
  applications. The loop tests the module constant \<open>OVERWRITE\<close> and never reads the
  check box: on scenario B with the box checked, application \<open>10\<close> keeps \<open>-a\<close> and the
  counter ends at 1.
\<close>

theorem overwrite_checkbox_not_read:
  "edit_apps (window0\<lparr>ops_entry := ''-x'', overwrite := True\<rparr>) scenario_apps =
     Inr ([(''10'', Section [(''LaunchOptions'', Leaf ''-a'')]),
           (''20'', Section [(''LaunchOptions'', Leaf ''-x'')]),
           (''30'', Section [(''LaunchOptions'', Leaf ''-x'')])],
          1, [(''10'', Leaf ''-a'')])"
  by (simp add: edit_apps_def window0_def scenario_apps_def loop_body_def OVERWRITE_def)

lemma body_no_overwrite:
  assumes "loop_body new appid (Section d) 0 [] = Inr (c', k, p)" "new \<noteq> []"
  shows "k = (if map_of d ''LaunchOptions'' = None then 1 else 0)"
    and "map_of d ''LaunchOptions'' = Some v \<Longrightarrow> v \<noteq> Leaf new \<Longrightarrow> c' = Section d"
  using assms by (simp_all add: loop_body_Section OVERWRITE_def split: option.splits if_splits)

lemma app_loop_no_overwrite:
  "new \<noteq> [] \<Longrightarrow> \<forall>c \<in> snd ` set apps. is_section c \<Longrightarrow>
   app_loop new apps 0 [] = Inr (apps', n, out) \<Longrightarrow>
     n = length (filter (\<lambda>(appid, c). launch_options_of c = None) apps)"
proof (induction apps arbitrary: apps' n out)
  case Nil
  then show ?case by simp
next
  case (Cons x apps)
  obtain appid c where x: "x = (appid, c)" by (cases x)
  have "is_section c" using Cons.prems(2) x by simp
  then obtain d where c: "c = Section d" by (cases c) simp_all
  have rest: "\<forall>c \<in> snd ` set apps. is_section c" using Cons.prems(2) by simp
  from Cons.prems(3) obtain c' k p cs m q where
    b: "loop_body new appid c 0 [] = Inr (c', k, p)" and
    r: "app_loop new apps 0 [] = Inr (cs, m, q)" and
    e: "apps' = (appid, c') # cs" "n = k + m" "out = p @ q"
    unfolding x by (rule app_loop_ConsE)
  note ih = Cons.IH [OF Cons.prems(1) rest r]
  have "k = (if map_of d ''LaunchOptions'' = None then 1 else 0)"
    using b Cons.prems(1) unfolding c by (rule body_no_overwrite(1))
  then show ?case unfolding x e c by (simp add: ih [symmetric])
qed

text \<open>
  C2: without overwriting, and with new options that are not empty, an application whose
  launch options are there and differ from the new ones is left as it was and is not
  counted: the counter is the number of applications that had no launch options. On
  scenario A only application \<open>20\<close> is set and the counter ends at 1.
\<close>

theorem existing_options_kept_without_overwrite:
  assumes "\<forall>c \<in> snd ` set apps. is_section c" and "ops_entry w \<noteq> []"
  shows "(\<exists>apps' n out.
            edit_apps (w\<lparr>overwrite := False\<rparr>) apps = Inr (apps', n, out)
          \<and> (\<forall>i<length apps. \<forall>v. launch_options_of (snd (apps ! i)) = Some v
                \<and> v \<noteq> Leaf (ops_entry w) \<longrightarrow> apps' ! i = apps ! i)
          \<and> n = length (filter (\<lambda>(appid, c). launch_options_of c = None) apps))
       \<and> edit_apps (window0\<lparr>ops_entry := ''-x'', overwrite := False\<rparr>) scenario_apps =
           Inr ([(''10'', Section [(''LaunchOptions'', Leaf ''-a'')]),
                 (''20'', Section [(''LaunchOptions'', Leaf ''-x'')]),
                 (''30'', Section [(''LaunchOptions'', Leaf ''-x'')])],
                1, [(''10'', Leaf ''-a'')])"
proof (rule conjI)
  let ?new = "ops_entry w"
  from app_loop_total [OF assms(1)] obtain apps' n out where
    r: "app_loop ?new apps 0 [] = Inr (apps', n, out)" by blast
  have kept: "apps' ! i = apps ! i"
    if i: "i < length apps" and v: "launch_options_of (snd (apps ! i)) = Some v"
      "v \<noteq> Leaf ?new" for i v
  proof -
    from assms(1) i obtain d where d: "snd (apps ! i) = Section d" by (rule nth_section)
    from app_loop_nth [OF r i] obtain k p where
      b: "loop_body ?new (fst (apps ! i)) (Section d) 0 [] = Inr (snd (apps' ! i), k, p)"
      unfolding d by blast
    have "map_of d ''LaunchOptions'' = Some v" using v(1) d by simp
    from body_no_overwrite(2) [OF b assms(2) this v(2)]
    have "snd (apps' ! i) = Section d" .
    with d nth_keys(1) [OF r i] show ?thesis by (simp add: prod_eq_iff)
  qed
  have n: "n = length (filter (\<lambda>(appid, c). launch_options_of c = None) apps)"
    using assms(2) assms(1) r by (rule app_loop_no_overwrite)
  show "\<exists>apps' n out.
            edit_apps (w\<lparr>overwrite := False\<rparr>) apps = Inr (apps', n, out)
          \<and> (\<forall>i<length apps. \<forall>v. launch_options_of (snd (apps ! i)) = Some v
                \<and> v \<noteq> Leaf (ops_entry w) \<longrightarrow> apps' ! i = apps ! i)
          \<and> n = length (filter (\<lambda>(appid, c). launch_options_of c = None) apps)"
    using r kept n by (auto simp: edit_apps_def)
next
  show "edit_apps (window0\<lparr>ops_entry := ''-x'', overwrite := False\<rparr>) scenario_apps =
           Inr ([(''10'', Section [(''LaunchOptions'', Leaf ''-a'')]),
                 (''20'', Section [(''LaunchOptions'', Leaf ''-x'')]),
                 (''30'', Section [(''LaunchOptions'', Leaf ''-x'')])],
                1, [(''10'', Leaf ''-a'')])"
    by (simp add: edit_apps_def window0_def scenario_apps_def loop_body_def OVERWRITE_def)
qed


theorem existing_options_kept_without_overwrite_witness:
  "list_all is_section (map snd scenario_apps)
   \<and> (\<exists>apps' n out.
         edit_apps (window0\<lparr>ops_entry := ''-x'', overwrite := False\<rparr>) scenario_apps =
           Inr (apps', n, out)
       \<and> apps' ! 0 = scenario_apps ! 0 \<and> n = 1)"
proof -
  have h: "\<forall>c \<in> snd ` set scenario_apps. is_section c" by (simp add: scenario_apps_def)
  have o: "ops_entry (window0\<lparr>ops_entry := ''-x''\<rparr>) \<noteq> []" by simp
  from existing_options_kept_without_overwrite [OF h o] obtain apps' n out where
    e: "edit_apps (window0\<lparr>ops_entry := ''-x'', overwrite := False\<rparr>) scenario_apps =
          Inr (apps', n, out)" and
    k: "\<forall>i<length scenario_apps. \<forall>v. launch_options_of (snd (scenario_apps ! i)) = Some v
          \<and> v \<noteq> Leaf ''-x'' \<longrightarrow> apps' ! i = scenario_apps ! i" and
    n: "n = length (filter (\<lambda>(appid, c). launch_options_of c = None) scenario_apps)"
    by auto
  have "apps' ! 0 = scenario_apps ! 0" using k by (simp add: scenario_apps_def)
  moreover have "n = 1" using n by (simp add: scenario_apps_def)
  moreover have "list_all is_section (map snd scenario_apps)" by (simp add: scenario_apps_def)
  ultimately show ?thesis using e by blast
qed

lemma delete_absent: "map_of d k = None \<Longrightarrow> AList.delete k d = d"
  by (simp add: map_of_eq_None_iff)

lemma body_erase:
  assumes "loop_body [] appid (Section d) 0 [] = Inr (c', k, p)"
  shows "c' = Section (AList.delete ''LaunchOptions'' d)"
    and "k = (if map_of d ''LaunchOptions'' = None then 0 else 1)"
    and "p = []"
  using assms by (auto simp add: loop_body_Section delete_absent split: option.splits)

lemma app_loop_erase:
  "\<forall>c \<in> snd ` set apps. is_section c \<Longrightarrow>
   app_loop [] apps 0 [] = Inr (apps', n, out) \<Longrightarrow>
     n = length (filter (\<lambda>(appid, c). py_in ''LaunchOptions'' c) apps)"
proof (induction apps arbitrary: apps' n out)
  case Nil
  then show ?case by simp
next
  case (Cons x apps)
  obtain appid c where x: "x = (appid, c)" by (cases x)
  have "is_section c" using Cons.prems(1) x by simp
  then obtain d where c: "c = Section d" by (cases c) simp_all
  have rest: "\<forall>c \<in> snd ` set apps. is_section c" using Cons.prems(1) by simp
  from Cons.prems(2) obtain c' k p cs m q where
    b: "loop_body [] appid c 0 [] = Inr (c', k, p)" and
    r: "app_loop [] apps 0 [] = Inr (cs, m, q)" and
    e: "apps' = (appid, c') # cs" "n = k + m" "out = p @ q"
    unfolding x by (rule app_loop_ConsE)
  note ih = Cons.IH [OF rest r]
  have "k = (if map_of d ''LaunchOptions'' = None then 0 else 1)"
    using b unfolding c by (rule body_erase(2))
  then show ?case unfolding x e c by (simp add: ih [symmetric])
qed

text \<open>
  C3: when the new options are empty, whatever the Overwrite box says, the loop deletes
  the launch options of every application that has them and counts it, and leaves the
  others as they were; afterwards no application has launch options, and when every
  application had them the counter is the number of applications.
\<close>

theorem erase_removes_launch_options:
  assumes "\<forall>c \<in> snd ` set apps. is_section c" and "ops_entry w = []"
  shows "\<exists>apps' n out.
            edit_apps w apps = Inr (apps', n, out)
          \<and> length apps' = length apps
          \<and> (\<forall>i<length apps. \<forall>d. snd (apps ! i) = Section d \<longrightarrow>
                apps' ! i = (fst (apps ! i), Section (AList.delete ''LaunchOptions'' d)))
          \<and> (\<forall>i<length apps. \<not> py_in ''LaunchOptions'' (snd (apps' ! i)))
          \<and> (\<forall>i<length apps. \<not> py_in ''LaunchOptions'' (snd (apps ! i)) \<longrightarrow>
                apps' ! i = apps ! i)
          \<and> n = length (filter (\<lambda>(appid, c). py_in ''LaunchOptions'' c) apps)
          \<and> ((\<forall>c \<in> snd ` set apps. py_in ''LaunchOptions'' c) \<longrightarrow> n = length apps)"
proof -
  from app_loop_total [OF assms(1)] obtain apps' n out where
    r: "app_loop [] apps 0 [] = Inr (apps', n, out)" by blast
  have len: "length apps' = length apps" using r by (rule app_loop_keys [THEN arg_cong [of _ _ length], simplified])
  have del: "apps' ! i = (fst (apps ! i), Section (AList.delete ''LaunchOptions'' d))"
    if i: "i < length apps" and d: "snd (apps ! i) = Section d" for i d
  proof -
    from app_loop_nth [OF r i] obtain k p where
      b: "loop_body [] (fst (apps ! i)) (Section d) 0 [] = Inr (snd (apps' ! i), k, p)"
      unfolding d by blast
    from body_erase(1) [OF b] nth_keys(1) [OF r i] show ?thesis by (simp add: prod_eq_iff)
  qed
  have gone: "\<not> py_in ''LaunchOptions'' (snd (apps' ! i))" if i: "i < length apps" for i
  proof -
    from assms(1) i obtain d where d: "snd (apps ! i) = Section d" by (rule nth_section)
    show ?thesis using del [OF i d] by (simp add: delete_conv')
  qed
  have same: "apps' ! i = apps ! i"
    if i: "i < length apps" and no: "\<not> py_in ''LaunchOptions'' (snd (apps ! i))" for i
  proof -
    from assms(1) i obtain d where d: "snd (apps ! i) = Section d" by (rule nth_section)
    have "map_of d ''LaunchOptions'' = None" using no d by simp
    then have "AList.delete ''LaunchOptions'' d = d"
      by (rule delete_absent)
    then show ?thesis using del [OF i d] d by (simp add: prod_eq_iff)
  qed
  have n: "n = length (filter (\<lambda>(appid, c). py_in ''LaunchOptions'' c) apps)"
    using assms(1) r by (rule app_loop_erase)
  have allp: "n = length apps" if "\<forall>c \<in> snd ` set apps. py_in ''LaunchOptions'' c"
  proof -
    have "filter (\<lambda>(appid, c). py_in ''LaunchOptions'' c) apps = apps"
      using that by (auto simp: filter_id_conv)
    then show ?thesis using n by simp
  qed
  show ?thesis
    unfolding edit_apps_def assms(2) using r len del gone same n allp by blast
qed


theorem erase_removes_launch_options_witness:
  "list_all is_section (map snd scenario_apps)
   \<and> (\<exists>apps' n out.
         edit_apps (window0\<lparr>overwrite := True\<rparr>) scenario_apps = Inr (apps', n, out)
       \<and> apps' ! 0 = (''10'', Section []) \<and> apps' ! 1 = scenario_apps ! 1 \<and> n = 2)"
proof -
  have h: "\<forall>c \<in> snd ` set scenario_apps. is_section c" by (simp add: scenario_apps_def)
  have o: "ops_entry (window0\<lparr>overwrite := True\<rparr>) = []" by (simp add: window0_def)
  from erase_removes_launch_options [OF h o] obtain apps' n out where
    e: "edit_apps (window0\<lparr>overwrite := True\<rparr>) scenario_apps = Inr (apps', n, out)" and
    d: "\<forall>i<length scenario_apps. \<forall>d. snd (scenario_apps ! i) = Section d \<longrightarrow>
          apps' ! i = (fst (scenario_apps ! i), Section (AList.delete ''LaunchOptions'' d))" and
    s: "\<forall>i<length scenario_apps. \<not> py_in ''LaunchOptions'' (snd (scenario_apps ! i)) \<longrightarrow>
          apps' ! i = scenario_apps ! i" and
    n: "n = length (filter (\<lambda>(appid, c). py_in ''LaunchOptions'' c) scenario_apps)"
    by blast
  have "apps' ! 0 = (''10'', Section [])" using d by (simp add: scenario_apps_def)
  moreover have "apps' ! 1 = scenario_apps ! 1" using s by (simp add: scenario_apps_def)
  moreover have "n = 2" using n by (simp add: scenario_apps_def)
  moreover have "list_all is_section (map snd scenario_apps)" by (simp add: scenario_apps_def)
  ultimately show ?thesis using e by blast
qed

lemma body_converged:
  assumes "loop_body new appid (Section d) 0 [] = Inr (c', k, p)" "new \<noteq> []"
  shows "is_section c' \<and> (\<exists>p2. loop_body new appid c' 0 [] = Inr (c', 0, p2))"
proof (cases OVERWRITE)
  case True
  then show ?thesis using assms
    by (auto simp add: loop_body_Section update_conv' split: option.splits if_splits)
next
  case False
  then show ?thesis using assms
    by (auto simp add: loop_body_Section update_conv' split: option.splits if_splits)
qed

lemma app_loop_converged:
  "new \<noteq> [] \<Longrightarrow> \<forall>c \<in> snd ` set apps. is_section c \<Longrightarrow>
   app_loop new apps 0 [] = Inr (apps', n, out) \<Longrightarrow>
     \<exists>out2. app_loop new apps' 0 [] = Inr (apps', 0, out2)"
proof (induction apps arbitrary: apps' n out)
  case Nil
  then show ?case by simp
next
  case (Cons x apps)
  obtain appid c where x: "x = (appid, c)" by (cases x)
  have "is_section c" using Cons.prems(2) x by simp
  then obtain d where c: "c = Section d" by (cases c) simp_all
  have rest: "\<forall>c \<in> snd ` set apps. is_section c" using Cons.prems(2) by simp
  from Cons.prems(3) obtain c' k p cs m q where
    b: "loop_body new appid c 0 [] = Inr (c', k, p)" and
    r: "app_loop new apps 0 [] = Inr (cs, m, q)" and
    e: "apps' = (appid, c') # cs" "n = k + m" "out = p @ q"
    unfolding x by (rule app_loop_ConsE)
  from Cons.IH [OF Cons.prems(1) rest r] obtain q2 where
    r2: "app_loop new cs 0 [] = Inr (cs, 0, q2)" by blast
  from body_converged [OF b [unfolded c] Cons.prems(1)] obtain p2 where
    b2: "loop_body new appid c' 0 [] = Inr (c', 0, p2)" by blast
  show ?case unfolding e(1) app_loop_Cons0 b2 r2 by simp
qed

text \<open>
  C5: with the Overwrite box checked and new options that are not empty, a second run of
  the loop on what the first run left alters nothing: its counter ends at 0 and it leaves
  every application as the first run left it.
\<close>

theorem second_run_alters_nothing:
  assumes "\<forall>c \<in> snd ` set apps. is_section c" and "ops_entry w \<noteq> []"
  shows "\<exists>apps' n out out2.
            edit_apps (w\<lparr>overwrite := True\<rparr>) apps = Inr (apps', n, out)
          \<and> edit_apps (w\<lparr>overwrite := True\<rparr>) apps' = Inr (apps', 0, out2)"
proof -
  from app_loop_total [OF assms(1)] obtain apps' n out where
    r: "app_loop (ops_entry w) apps 0 [] = Inr (apps', n, out)" by blast
  from app_loop_converged [OF assms(2) assms(1) r] obtain out2 where
    "app_loop (ops_entry w) apps' 0 [] = Inr (apps', 0, out2)" by blast
  with r show ?thesis by (simp add: edit_apps_def)
qed

theorem second_run_alters_nothing_witness:
  "list_all is_section (map snd scenario_apps)
   \<and> (\<exists>apps' n out out2.
         edit_apps (window0\<lparr>ops_entry := ''-x'', overwrite := True\<rparr>) scenario_apps =
           Inr (apps', n, out)
       \<and> edit_apps (window0\<lparr>ops_entry := ''-x'', overwrite := True\<rparr>) apps' =
           Inr (apps', 0, out2))"
proof -
  have h: "\<forall>c \<in> snd ` set scenario_apps. is_section c" by (simp add: scenario_apps_def)
  have o: "ops_entry (window0\<lparr>ops_entry := ''-x''\<rparr>) \<noteq> []" by simp
  have "list_all is_section (map snd scenario_apps)" by (simp add: scenario_apps_def)
  with second_run_alters_nothing [OF h o] show ?thesis by simp
qed

text \<open>
  C6, as stated: erasing is not a no-op on a section in which no application lacks launch
  options. With one application that has them, empty new options and the Overwrite box
  unchecked, the loop deletes them and the counter ends at 1.
\<close>

theorem erase_is_not_a_no_op:
  "py_in ''LaunchOptions'' (Section [(''LaunchOptions'', Leaf ''-a'')])
   \<and> edit_apps (window0\<lparr>ops_entry := [], overwrite := False\<rparr>)
        [(''10'', Section [(''LaunchOptions'', Leaf ''-a'')])] =
       Inr ([(''10'', Section [])], 1, [])"
  by (simp add: edit_apps_def window0_def loop_body_def)

lemma body_absent_erase:
  "\<not> py_in ''LaunchOptions'' c \<Longrightarrow> loop_body [] appid c 0 [] = Inr (c, 0, [])"
  by (simp add: loop_body_def)

lemma app_loop_absent_erase:
  "\<forall>c \<in> snd ` set apps. \<not> py_in ''LaunchOptions'' c \<Longrightarrow>
     app_loop [] apps 0 [] = Inr (apps, 0, [])"
proof (induction apps)
  case Nil
  then show ?case by simp
next
  case (Cons x apps)
  obtain appid c where x: "x = (appid, c)" by (cases x)
  have b: "loop_body [] appid c 0 [] = Inr (c, 0, [])"
    using Cons.prems x by (simp add: body_absent_erase)
  have r: "app_loop [] apps 0 [] = Inr (apps, 0, [])"
    using Cons by simp
  show ?case unfolding x app_loop_Cons0 b r by simp
qed

text \<open>
  C6, amended: on a section in which no application has launch options, two runs in a row
  with empty new options and the Overwrite box unchecked both end with the counter at 0,
  print nothing and leave the section as it was.
\<close>

theorem erase_twice_without_launch_options:
  assumes "\<forall>c \<in> snd ` set apps. \<not> py_in ''LaunchOptions'' c" and "ops_entry w = []"
  shows "\<exists>apps1 apps2.
            edit_apps (w\<lparr>overwrite := False\<rparr>) apps = Inr (apps1, 0, [])
          \<and> edit_apps (w\<lparr>overwrite := False\<rparr>) apps1 = Inr (apps2, 0, [])
          \<and> apps1 = apps \<and> apps2 = apps"
  using app_loop_absent_erase [OF assms(1)] assms(2) by (simp add: edit_apps_def)

theorem erase_twice_without_launch_options_witness:
  "\<not> py_in ''LaunchOptions'' (Section [(''Name'', Leaf ''x'')])
   \<and> edit_apps (window0\<lparr>overwrite := False\<rparr>) [(''20'', Section [(''Name'', Leaf ''x'')])] =
       Inr ([(''20'', Section [(''Name'', Leaf ''x'')])], 0, [])"
proof -
  have h: "\<forall>c \<in> snd ` set [(''20'', Section [(''Name'', Leaf ''x'')])].
             \<not> py_in ''LaunchOptions'' c" by simp
  have o: "ops_entry window0 = []" by (simp add: window0_def)
  from erase_twice_without_launch_options [OF h o] show ?thesis by simp
qed

text \<open>
  C10: when the loop ends, the counter is the number of applications whose entry for
  \<open>LaunchOptions\<close> is not what it was before the loop (added, deleted or replaced by
  another value); when the counter is 0, every application is as it was.
\<close>

theorem altered_counts_changed_apps:
  assumes "edit_apps w apps = Inr (apps', n, out)"
  shows "n = length (filter (\<lambda>(x, y). launch_options_of (snd x) \<noteq> launch_options_of (snd y))
               (zip apps apps'))
       \<and> length apps' = length apps
       \<and> (n = 0 \<longrightarrow> apps' = apps)"
proof -
  have r: "app_loop (ops_entry w) apps 0 [] = Inr (apps', n, out)"
    using assms by (simp add: edit_apps_def)
  have "map fst apps' = map fst apps" using r by (rule app_loop_keys)
  then have "length apps' = length apps" by (metis length_map)
  moreover have "apps' = apps" if "n = 0" using r that app_loop_zero by blast
  ultimately show ?thesis using app_loop_counts [OF r] by blast
qed


theorem altered_counts_changed_apps_witness:
  "edit_apps (window0\<lparr>ops_entry := ''-x''\<rparr>) scenario_apps =
     Inr ([(''10'', Section [(''LaunchOptions'', Leaf ''-a'')]),
           (''20'', Section [(''LaunchOptions'', Leaf ''-x'')]),
           (''30'', Section [(''LaunchOptions'', Leaf ''-x'')])],
          1, [(''10'', Leaf ''-a'')])
   \<and> (1::nat) = length (filter (\<lambda>(x, y). launch_options_of (snd x) \<noteq> launch_options_of (snd y))
         (zip scenario_apps
           [(''10'', Section [(''LaunchOptions'', Leaf ''-a'')]),
            (''20'', Section [(''LaunchOptions'', Leaf ''-x'')]),
            (''30'', Section [(''LaunchOptions'', Leaf ''-x'')])]))"
proof -
  have e: "edit_apps (window0\<lparr>ops_entry := ''-x''\<rparr>) scenario_apps =
     Inr ([(''10'', Section [(''LaunchOptions'', Leaf ''-a'')]),
           (''20'', Section [(''LaunchOptions'', Leaf ''-x'')]),
           (''30'', Section [(''LaunchOptions'', Leaf ''-x'')])],
          1, [(''10'', Leaf ''-a'')])"
    by (simp add: edit_apps_def window0_def scenario_apps_def loop_body_def OVERWRITE_def)
  from altered_counts_changed_apps [OF e] e show ?thesis by blast
qed

lemma filter_update_other:
  "filter (\<lambda>(k', v'). k' \<noteq> k) (AList.update k v d) = filter (\<lambda>(k', v'). k' \<noteq> k) d"
  by (induction d) auto

lemma filter_delete_other:
  "filter (\<lambda>(k', v'). k' \<noteq> k) (AList.delete k d) = filter (\<lambda>(k', v'). k' \<noteq> k) d"
  by (induction d) auto

lemma keys_update:
  "map fst (AList.update k v d) = (if map_of d k = None then map fst d @ [k] else map fst d)"
  by (induction d) auto

lemma body_frame_Section:
  assumes "loop_body new appid (Section d) 0 [] = Inr (c', k, p)"
  shows "other_fields c' = other_fields (Section d)"
    and "field_keys c' = map fst d \<or> field_keys c' = map fst d @ [''LaunchOptions'']
         \<or> field_keys c' = removeAll ''LaunchOptions'' (map fst d)"
    and "p = advisory_of new (appid, Section d)"
proof -
  show "other_fields c' = other_fields (Section d)"
    using assms
    by (auto simp add: loop_body_Section filter_update_other filter_delete_other
        split: option.splits if_splits)
  show "field_keys c' = map fst d \<or> field_keys c' = map fst d @ [''LaunchOptions'']
         \<or> field_keys c' = removeAll ''LaunchOptions'' (map fst d)"
    using assms
    by (auto simp add: loop_body_Section keys_update delete_keys
        split: option.splits if_splits)
  show "p = advisory_of new (appid, Section d)"
    using assms
    by (auto simp add: loop_body_Section advisory_of_def split: option.splits if_splits)
qed

lemma body_frame:
  assumes "loop_body new appid c 0 [] = Inr (c', k, p)"
  shows "other_fields c' = other_fields c"
    and "field_keys c' = field_keys c \<or> field_keys c' = field_keys c @ [''LaunchOptions'']
         \<or> field_keys c' = removeAll ''LaunchOptions'' (field_keys c)"
    and "p = advisory_of new (appid, c)"
proof -
  show "other_fields c' = other_fields c"
  proof (cases c)
    case (Leaf s)
    then show ?thesis using assms by (auto simp add: loop_body_Leaf split: if_splits)
  next
    case (Section d)
    then show ?thesis using body_frame_Section(1) assms by blast
  qed
  show "field_keys c' = field_keys c \<or> field_keys c' = field_keys c @ [''LaunchOptions'']
         \<or> field_keys c' = removeAll ''LaunchOptions'' (field_keys c)"
  proof (cases c)
    case (Leaf s)
    then show ?thesis using assms by (auto simp add: loop_body_Leaf split: if_splits)
  next
    case (Section d)
    then show ?thesis using body_frame_Section(2) [of new appid d c' k p] assms by simp
  qed
  show "p = advisory_of new (appid, c)"
  proof (cases c)
    case (Leaf s)
    then show ?thesis using assms
      by (auto simp add: loop_body_Leaf advisory_of_def split: if_splits)
  next
    case (Section d)
    then show ?thesis using body_frame_Section(3) assms by blast
  qed
qed

lemma app_loop_advisories:
  "app_loop new apps 0 [] = Inr (apps', n, out) \<Longrightarrow>
     out = concat (map (advisory_of new) apps)"
proof (induction apps arbitrary: apps' n out)
  case Nil
  then show ?case by simp
next
  case (Cons x apps)
  obtain appid c where x: "x = (appid, c)" by (cases x)
  from Cons.prems obtain c' k p cs m q where
    b: "loop_body new appid c 0 [] = Inr (c', k, p)" and
    r: "app_loop new apps 0 [] = Inr (cs, m, q)" and
    e: "apps' = (appid, c') # cs" "n = k + m" "out = p @ q"
    unfolding x by (rule app_loop_ConsE)
  show ?case unfolding x e using Cons.IH [OF r] body_frame(3) [OF b] by simp
qed


lemma map_of_map_other:
  "map_of (map (\<lambda>(k, v). if k = x then (k, v) else (k, g v)) d) x = map_of d x"
  by (induction d) auto

lemma update_map_other:
  "AList.update x u (map (\<lambda>(k, v). if k = x then (k, v) else (k, g v)) d) =
     map (\<lambda>(k, v). if k = x then (k, v) else (k, g v)) (AList.update x u d)"
  by (induction d) auto

lemma delete_map_other:
  "AList.delete x (map (\<lambda>(k, v). if k = x then (k, v) else (k, g v)) d) =
     map (\<lambda>(k, v). if k = x then (k, v) else (k, g v)) (AList.delete x d)"
  by (induction d) auto

lemma body_other_fields:
  "loop_body new appid (map_other_fields g c) a out =
     (case loop_body new appid c a out of
        Inl e \<Rightarrow> Inl e
      | Inr (c', k, p) \<Rightarrow> Inr (map_other_fields g c', k, p))"
proof (cases c)
  case (Leaf s)
  then show ?thesis by (simp add: loop_body_Leaf)
next
  case (Section d)
  show ?thesis unfolding Section map_other_fields.simps loop_body_Section map_of_map_other
    by (simp add: update_map_other delete_map_other split: option.splits)
qed

lemma app_loop_other_fields:
  "app_loop new apps 0 [] = Inr (apps', n, out) \<Longrightarrow>
     app_loop new (map (\<lambda>(appid, c). (appid, map_other_fields g c)) apps) 0 [] =
       Inr (map (\<lambda>(appid, c). (appid, map_other_fields g c)) apps', n, out)"
proof (induction apps arbitrary: apps' n out)
  case Nil
  then show ?case by simp
next
  case (Cons x apps)
  obtain appid c where x: "x = (appid, c)" by (cases x)
  from Cons.prems obtain c' k p cs m q where
    b: "loop_body new appid c 0 [] = Inr (c', k, p)" and
    r: "app_loop new apps 0 [] = Inr (cs, m, q)" and
    e: "apps' = (appid, c') # cs" "n = k + m" "out = p @ q"
    unfolding x by (rule app_loop_ConsE)
  have b': "loop_body new appid (map_other_fields g c) 0 [] = Inr (map_other_fields g c', k, p)"
    using body_other_fields [of new appid g c 0 "[]"] b by simp
  note ih = Cons.IH [OF r]
  have "app_loop new ((appid, map_other_fields g c)
          # map (\<lambda>(appid, c). (appid, map_other_fields g c)) apps) 0 [] =
        Inr ((appid, map_other_fields g c')
          # map (\<lambda>(appid, c). (appid, map_other_fields g c)) cs, k + m, p @ q)"
    unfolding app_loop_Cons0 b' ih by simp
  then show ?case unfolding x e by simp
qed

text \<open>
  C8: the loop keeps the applications and their order; in each application it keeps every
  field other than \<open>LaunchOptions\<close>, with its value and in its place, and the keys of the
  application stay in their order (\<open>LaunchOptions\<close> stays where it is, is appended when
  it is new, or is removed); the lines printed follow the order of the applications; and
  the loop does not depend on the values of the other fields: changing them by any
  function \<open>g\<close> changes the result by \<open>g\<close> on those values and nothing else.
\<close>

theorem edit_touches_only_launch_options:
  assumes "edit_apps w apps = Inr (apps', n, out)"
  shows "map fst apps' = map fst apps
       \<and> (\<forall>i<length apps. other_fields (snd (apps' ! i)) = other_fields (snd (apps ! i)))
       \<and> (\<forall>i<length apps.
             field_keys (snd (apps' ! i)) = field_keys (snd (apps ! i))
           \<or> field_keys (snd (apps' ! i)) = field_keys (snd (apps ! i)) @ [''LaunchOptions'']
           \<or> field_keys (snd (apps' ! i)) = removeAll ''LaunchOptions'' (field_keys (snd (apps ! i))))
       \<and> out = concat (map (advisory_of (ops_entry w)) apps)
       \<and> (\<forall>g. edit_apps w (map (\<lambda>(appid, c). (appid, map_other_fields g c)) apps) =
               Inr (map (\<lambda>(appid, c). (appid, map_other_fields g c)) apps', n, out))"
proof -
  let ?new = "ops_entry w"
  have r: "app_loop ?new apps 0 [] = Inr (apps', n, out)"
    using assms by (simp add: edit_apps_def)
  have keys: "map fst apps' = map fst apps" using r by (rule app_loop_keys)
  have body: "\<exists>k p. loop_body ?new (fst (apps ! i)) (snd (apps ! i)) 0 [] = Inr (snd (apps' ! i), k, p)"
    if "i < length apps" for i using r that by (rule app_loop_nth)
  have other: "other_fields (snd (apps' ! i)) = other_fields (snd (apps ! i))"
    if "i < length apps" for i using body [OF that] body_frame(1) by blast
  have order: "field_keys (snd (apps' ! i)) = field_keys (snd (apps ! i))
           \<or> field_keys (snd (apps' ! i)) = field_keys (snd (apps ! i)) @ [''LaunchOptions'']
           \<or> field_keys (snd (apps' ! i)) = removeAll ''LaunchOptions'' (field_keys (snd (apps ! i)))"
    if "i < length apps" for i using body [OF that] body_frame(2) by blast
  have adv: "out = concat (map (advisory_of ?new) apps)" using r by (rule app_loop_advisories)
  have par: "edit_apps w (map (\<lambda>(appid, c). (appid, map_other_fields g c)) apps) =
               Inr (map (\<lambda>(appid, c). (appid, map_other_fields g c)) apps', n, out)" for g
    unfolding edit_apps_def using r by (rule app_loop_other_fields)
  show ?thesis using keys other order adv par by blast
qed


theorem edit_touches_only_launch_options_witness:
  "\<exists>apps'.
     edit_apps (window0\<lparr>ops_entry := ''-x''\<rparr>)
       [(''7'', Section [(''Name'', Leaf ''g''), (''LaunchOptions'', Leaf ''-a'')]),
        (''3'', Section [(''Name'', Leaf ''h'')])] = Inr (apps', 1, [(''7'', Leaf ''-a'')])
   \<and> map fst apps' = [''7'', ''3'']
   \<and> other_fields (snd (apps' ! 0)) = [(''Name'', Leaf ''g'')]
   \<and> other_fields (snd (apps' ! 1)) = [(''Name'', Leaf ''h'')]"
proof -
  let ?apps = "[(''7'', Section [(''Name'', Leaf ''g''), (''LaunchOptions'', Leaf ''-a'')]),
        (''3'', Section [(''Name'', Leaf ''h'')])]"
  have e: "edit_apps (window0\<lparr>ops_entry := ''-x''\<rparr>) ?apps =
     Inr ([(''7'', Section [(''Name'', Leaf ''g''), (''LaunchOptions'', Leaf ''-a'')]),
           (''3'', Section [(''Name'', Leaf ''h''), (''LaunchOptions'', Leaf ''-x'')])],
          1, [(''7'', Leaf ''-a'')])"
    by (simp add: edit_apps_def window0_def loop_body_def OVERWRITE_def)
  from edit_touches_only_launch_options [OF e] have
    "map fst [(''7'', Section [(''Name'', Leaf ''g''), (''LaunchOptions'', Leaf ''-a'')]),
           (''3'', Section [(''Name'', Leaf ''h''), (''LaunchOptions'', Leaf ''-x'')])] = map fst ?apps"
    by (rule conjunct1)
  with e show ?thesis by simp
qed


section \<open>Properties of \<open>set_launch_options\<close>\<close>

lemma bind_err_Inr: "(bind_err m f = Inr r) = (\<exists>x. m = Inr x \<and> f x = Inr r)"
  by (cases m) (simp_all add: bind_err_def)

lemma bind_err_simps: "bind_err (Inr x) f = f x" "bind_err (Inl e) f = Inl e"
  by (simp_all add: bind_err_def)

lemma getpath_putpath:
  "getpath n ks = Inr v \<Longrightarrow> getpath (putpath ks new n) ks = Inr new"
proof (induction ks arbitrary: n)
  case Nil
  then show ?case by simp
next
  case (Cons k ks)
  from Cons.prems obtain v1 where g: "getitem n k = Inr v1" and p: "getpath v1 ks = Inr v"
    by (auto simp: bind_err_Inr)
  from g obtain d where n: "n = Section d" and m: "map_of d k = Some v1"
    by (cases n) (auto split: option.splits)
  show ?case unfolding n using m Cons.IH [OF p]
    by (simp add: update_conv' bind_err_simps)
qed

lemma cur_statistics_update:
  "cur_loc_id (w\<lparr>statistics := x\<rparr>) = cur_loc_id w"
  "cur_data (w\<lparr>statistics := x\<rparr>) = cur_data w"
  by (simp_all add: cur_loc_id_def cur_data_def split: option.splits)

lemma refresh_statistics_same:
  assumes "refresh_statistics w = Inr w'"
  shows "cur_loc_id w' = cur_loc_id w" "cur_data w' = cur_data w"
proof -
  from assms obtain x where "w' = w\<lparr>statistics := x\<rparr>"
    by (auto simp: refresh_statistics_def bind_err_Inr)
  then show "cur_loc_id w' = cur_loc_id w" "cur_data w' = cur_data w"
    by (simp_all add: cur_statistics_update)
qed

lemma store_appconfs_Inr:
  assumes "store_appconfs w apps' = Inr w2"
  obtains loc data where
    "cur_loc_id w = Inr loc" "cur_data w = Inr data"
    "cur_loc_id w2 = Inr loc" "cur_data w2 = Inr (putpath apps_path (Section apps') data)"
proof -
  from assms obtain loc data where
    l: "cur_loc_id w = Inr loc" and d: "cur_data w = Inr data" and
    w2: "w2 = w\<lparr>user_datas :=
           AList.update loc (putpath apps_path (Section apps') data) (user_datas w)\<rparr>"
    by (auto simp: store_appconfs_def bind_err_Inr)
  have l2: "cur_loc_id w2 = Inr loc"
    using l unfolding w2 by (simp add: cur_loc_id_def split: option.splits)
  have "cur_data w2 = Inr (putpath apps_path (Section apps') data)"
    unfolding cur_data_def l2 unfolding w2 by (simp add: bind_err_simps update_conv')
  with l d l2 show ?thesis by (rule that)
qed

lemma store_appconfs_returns:
  assumes "cur_appconfs w = Inr (Section apps)"
  obtains w2 where "store_appconfs w apps' = Inr w2" "cur_appconfs w2 = Inr (Section apps')"
proof -
  from assms obtain data where d: "cur_data w = Inr data"
    and g: "getpath data apps_path = Inr (Section apps)"
    by (auto simp: cur_appconfs_def bind_err_Inr)
  from d obtain loc where l: "cur_loc_id w = Inr loc"
    by (auto simp: cur_data_def bind_err_Inr)
  let ?w2 = "w\<lparr>user_datas :=
    AList.update loc (putpath apps_path (Section apps') data) (user_datas w)\<rparr>"
  have s: "store_appconfs w apps' = Inr ?w2"
    by (simp add: store_appconfs_def l d bind_err_simps)
  from store_appconfs_Inr [OF s] l d
  have "cur_data ?w2 = Inr (putpath apps_path (Section apps') data)" by auto
  then have "cur_appconfs ?w2 = Inr (Section apps')"
    unfolding cur_appconfs_def using g by (simp add: getpath_putpath bind_err_simps)
  with s show ?thesis by (rule that)
qed

lemma set_launch_options_cases:
  assumes "set_launch_options vdf_load vdf_dump userdata_dir fs w = Inr r"
  obtains loc0 w1 appconfs apps apps' n out w2 loc data w3 where
    "cur_loc_id w = Inr loc0"
    "load_user_config vdf_load userdata_dir fs w loc0 = Inr w1"
    "cur_appconfs w1 = Inr appconfs"
    "items appconfs = Inr apps"
    "edit_apps w1 apps = Inr (apps', n, out)"
    "store_appconfs w1 apps' = Inr w2"
    "cur_loc_id w2 = Inr loc"
    "cur_data w2 = Inr data"
    "refresh_statistics w2 = Inr w3"
    "r = (if n = 0 then
            \<lparr>window = w3, files = fs, written = [], altered = n, printed = out,
             shown = ShowError ''No changes made''
               ''None of the launch options were altered.''\<rparr>
          else
            \<lparr>window = w3,
             files = fs(get_config_file_path userdata_dir loc \<mapsto> vdf_dump data),
             written = [(get_config_file_path userdata_dir loc, vdf_dump data)],
             altered = n, printed = out,
             shown = ShowInfo ''Changes made'' n\<rparr>)"
proof -
  note d = set_launch_options_def bind_err_simps
  obtain loc0 where a0: "cur_loc_id w = Inr loc0"
    using assms by (cases "cur_loc_id w") (simp_all add: d)
  obtain w1 where a1: "load_user_config vdf_load userdata_dir fs w loc0 = Inr w1"
    using assms by (cases "load_user_config vdf_load userdata_dir fs w loc0") (simp_all add: d a0)
  obtain appconfs where a2: "cur_appconfs w1 = Inr appconfs"
    using assms by (cases "cur_appconfs w1") (simp_all add: d a0 a1)
  obtain apps where a3: "items appconfs = Inr apps"
    using assms by (cases "items appconfs") (simp_all add: d a0 a1 a2)
  obtain e where a4: "edit_apps w1 apps = Inr e"
    using assms by (cases "edit_apps w1 apps") (simp_all add: d a0 a1 a2 a3)
  obtain apps' n out where e: "e = (apps', n, out)" by (cases e)
  obtain w2 where a5: "store_appconfs w1 apps' = Inr w2"
    using assms by (cases "store_appconfs w1 apps'") (simp_all add: d a0 a1 a2 a3 a4 e)
  from store_appconfs_Inr [OF a5] obtain loc data where
    a6: "cur_loc_id w2 = Inr loc" and a7: "cur_data w2 = Inr data" by blast
  obtain w3 where a8: "refresh_statistics w2 = Inr w3"
    using assms
    by (cases "refresh_statistics w2") (simp_all add: d a0 a1 a2 a3 a4 e a5 a6 a7 split: if_splits)
  have "r = (if n = 0 then
            \<lparr>window = w3, files = fs, written = [], altered = n, printed = out,
             shown = ShowError ''No changes made''
               ''None of the launch options were altered.''\<rparr>
          else
            \<lparr>window = w3,
             files = fs(get_config_file_path userdata_dir loc \<mapsto> vdf_dump data),
             written = [(get_config_file_path userdata_dir loc, vdf_dump data)],
             altered = n, printed = out,
             shown = ShowInfo ''Changes made'' n\<rparr>)"
    using assms by (simp add: d a0 a1 a2 a3 a4 e a5 a6 a7 a8 split: if_splits)
  with a0 a1 a2 a3 a4 [unfolded e] a5 a6 a7 a8 show ?thesis by (rule that)
qed

lemma getpath_putpath_diverge:
  "diverge ks p \<Longrightarrow> getpath (putpath p new n) ks = getpath n ks"
proof (induction p arbitrary: ks n)
  case Nil
  then show ?case by (cases ks) simp_all
next
  case (Cons k p)
  from Cons.prems obtain a as where ks: "ks = a # as" by (cases ks) simp_all
  show ?case
  proof (cases n)
    case (Leaf s)
    then show ?thesis by simp
  next
    case (Section d)
    show ?thesis
    proof (cases "map_of d k")
      case None
      then show ?thesis using Section by simp
    next
      case (Some v)
      show ?thesis
      proof (cases "a = k")
        case True
        then have "diverge as p" using Cons.prems ks by simp
        from Cons.IH [OF this, of v] show ?thesis
          unfolding ks Section using Some True by (simp add: update_conv' bind_err_simps)
      next
        case False
        then show ?thesis unfolding ks Section using Some by (simp add: update_conv')
      qed
    qed
  qed
qed

lemma keys_update_present: "map_of d k = Some v \<Longrightarrow> map fst (AList.update k x d) = map fst d"
  by (simp add: keys_update)

lemma getpath_putpath_keys:
  "take (length p) ks \<noteq> p \<Longrightarrow>
     map_sum id field_keys (getpath (putpath p new n) ks) = map_sum id field_keys (getpath n ks)"
proof (induction p arbitrary: ks n)
  case Nil
  then show ?case by simp
next
  case (Cons k p)
  show ?case
  proof (cases n)
    case (Leaf s)
    then show ?thesis by simp
  next
    case (Section d)
    show ?thesis
    proof (cases "map_of d k")
      case None
      then show ?thesis using Section by simp
    next
      case (Some v)
      show ?thesis
      proof (cases ks)
        case Nil
        then show ?thesis using Section Some by (simp add: keys_update_present)
      next
        case (Cons a as)
        show ?thesis
        proof (cases "a = k")
          case True
          then have "take (length p) as \<noteq> p" using Cons.prems Cons by simp
          from Cons.IH [OF this, of v] show ?thesis
            unfolding Cons Section using Some True by (simp add: update_conv' bind_err_simps)
        next
          case False
          then show ?thesis unfolding Cons Section using Some by (simp add: update_conv')
        qed
      qed
    qed
  qed
qed

lemma load_user_config_Inr:
  assumes "load_user_config vdf_load userdata_dir fs w loc0 = Inr w1"
    and "cur_loc_id w = Inr loc0"
  obtains contents doc where
    "fs (get_config_file_path userdata_dir loc0) = Some contents"
    "vdf_load contents = Inr doc"
    "cur_loc_id w1 = Inr loc0" "cur_data w1 = Inr doc" "ops_entry w1 = ops_entry w"
proof -
  from assms(1) obtain contents where t: "fs (get_config_file_path userdata_dir loc0) = Some contents"
    by (cases "fs (get_config_file_path userdata_dir loc0)") (simp_all add: load_user_config_def)
  from assms(1) obtain doc where v: "vdf_load contents = Inr doc"
    by (cases "vdf_load contents") (simp_all add: load_user_config_def t bind_err_simps)
  from assms(1) obtain name where
    g: "getpath doc [''UserLocalConfigStore'', ''friends'', loc0, ''name''] = Inr name"
    by (cases "getpath doc [''UserLocalConfigStore'', ''friends'', loc0, ''name'']")
      (simp_all add: load_user_config_def t v bind_err_simps del: getpath.simps)
  from assms(1) obtain user where
    w1: "w1 = w\<lparr>user_local_ids := AList.update user loc0 (user_local_ids w),
                 user_datas := AList.update loc0 doc (user_datas w)\<rparr>"
    by (cases name) (auto simp add: load_user_config_def t v g bind_err_simps simp del: getpath.simps)
  have m: "map_of (user_local_ids w) (user_choice w) = Some loc0"
    using assms(2) by (simp add: cur_loc_id_def split: option.splits)
  have l: "cur_loc_id w1 = Inr loc0"
    unfolding w1 using m by (simp add: cur_loc_id_def update_conv')
  have d: "cur_data w1 = Inr doc"
    unfolding cur_data_def l unfolding w1 by (simp add: bind_err_simps update_conv')
  have "ops_entry w1 = ops_entry w" unfolding w1 by simp
  with t v l d show ?thesis by (rule that)
qed

text \<open>
  C9: a call of \<open>set_launch_options\<close> that returns has read the document of the selected
  user from the user's file and run the loop on its \<open>apps\<close> section. The edited document
  is that document with the \<open>apps\<close> section as the loop left it: its \<open>apps\<close> section is
  the loop's result, what lies beside the way to \<open>apps\<close> is as it was read, and the
  sections on the way keep their keys in order. The call has written the dump of the
  edited document to the user's file exactly when the loop's counter is positive; when
  the counter is 0 it has written nothing and the file system is as it was. The window
  holds the edited document for the user afterwards.
\<close>

theorem written_iff_altered:
  assumes "set_launch_options vdf_load vdf_dump userdata_dir fs w = Inr r"
  shows "\<exists>loc text doc apps apps'.
            cur_loc_id w = Inr loc
          \<and> fs (get_config_file_path userdata_dir loc) = Some text
          \<and> vdf_load text = Inr doc
          \<and> getpath doc apps_path = Inr (Section apps)
          \<and> edit_apps w apps = Inr (apps', altered r, printed r)
          \<and> getpath (putpath apps_path (Section apps') doc) apps_path = Inr (Section apps')
          \<and> (\<forall>ks. diverge ks apps_path \<longrightarrow>
                getpath (putpath apps_path (Section apps') doc) ks = getpath doc ks)
          \<and> (\<forall>ks. take (length apps_path) ks \<noteq> apps_path \<longrightarrow>
                map_sum id field_keys (getpath (putpath apps_path (Section apps') doc) ks) =
                map_sum id field_keys (getpath doc ks))
          \<and> cur_loc_id (window r) = Inr loc
          \<and> cur_data (window r) = Inr (putpath apps_path (Section apps') doc)
          \<and> written r =
              (if 0 < altered r
               then [(get_config_file_path userdata_dir loc,
                      vdf_dump (putpath apps_path (Section apps') doc))]
               else [])
          \<and> files r =
              (if 0 < altered r
               then fs(get_config_file_path userdata_dir loc \<mapsto>
                      vdf_dump (putpath apps_path (Section apps') doc))
               else fs)"
proof -
  from assms obtain loc0 w1 appconfs apps apps' n out w2 loc data w3 where
    c0: "cur_loc_id w = Inr loc0" and
    ld: "load_user_config vdf_load userdata_dir fs w loc0 = Inr w1" and
    ac: "cur_appconfs w1 = Inr appconfs" and
    it: "items appconfs = Inr apps" and
    ed: "edit_apps w1 apps = Inr (apps', n, out)" and
    st: "store_appconfs w1 apps' = Inr w2" and
    l: "cur_loc_id w2 = Inr loc" and
    d: "cur_data w2 = Inr data" and
    s: "refresh_statistics w2 = Inr w3" and
    r: "r = (if n = 0 then
            \<lparr>window = w3, files = fs, written = [], altered = n, printed = out,
             shown = ShowError ''No changes made''
               ''None of the launch options were altered.''\<rparr>
          else
            \<lparr>window = w3,
             files = fs(get_config_file_path userdata_dir loc \<mapsto> vdf_dump data),
             written = [(get_config_file_path userdata_dir loc, vdf_dump data)],
             altered = n, printed = out,
             shown = ShowInfo ''Changes made'' n\<rparr>)"
    by (rule set_launch_options_cases)
  from ld c0 obtain contents doc where
    t: "fs (get_config_file_path userdata_dir loc0) = Some contents" and
    v: "vdf_load contents = Inr doc" and
    l1: "cur_loc_id w1 = Inr loc0" and d1: "cur_data w1 = Inr doc" and
    o: "ops_entry w1 = ops_entry w"
    by (rule load_user_config_Inr)
  let ?edited = "putpath apps_path (Section apps') doc"
  from store_appconfs_Inr [OF st] l1 d1 have
    l2: "cur_loc_id w2 = Inr loc0" and d2: "cur_data w2 = Inr ?edited"
    by auto
  have loc: "loc = loc0" using l l2 by simp
  have data: "data = ?edited" using d d2 by simp
  have sec: "appconfs = Section apps" using it by (cases appconfs) simp_all
  have g: "getpath doc apps_path = Inr (Section apps)"
    using ac unfolding cur_appconfs_def d1 sec by (simp add: bind_err_simps)
  have e: "edit_apps w apps = Inr (apps', n, out)"
    using ed by (simp add: edit_apps_def o)
  have g': "getpath ?edited apps_path = Inr (Section apps')"
    using g by (rule getpath_putpath)
  have fr: "\<forall>ks. diverge ks apps_path \<longrightarrow> getpath ?edited ks = getpath doc ks"
    by (simp add: getpath_putpath_diverge)
  have ky: "\<forall>ks. take (length apps_path) ks \<noteq> apps_path \<longrightarrow>
      map_sum id field_keys (getpath ?edited ks) = map_sum id field_keys (getpath doc ks)"
    using getpath_putpath_keys by blast
  have l3: "cur_loc_id (window r) = Inr loc0"
    using refresh_statistics_same(1) [OF s] l2 r by (simp split: if_splits)
  have d3: "cur_data (window r) = Inr ?edited"
    using refresh_statistics_same(2) [OF s] d2 r by (simp split: if_splits)
  have an: "altered r = n" and pr: "printed r = out" using r by (simp_all split: if_splits)
  have wr: "written r =
      (if 0 < altered r then [(get_config_file_path userdata_dir loc0, vdf_dump ?edited)]
       else [])"
    using r loc data by (simp split: if_splits)
  have fi: "files r =
      (if 0 < altered r
       then fs(get_config_file_path userdata_dir loc0 \<mapsto> vdf_dump ?edited) else fs)"
    using r loc data by (simp split: if_splits)
  from c0 t v g e [folded an pr] g' fr ky l3 d3 wr fi show ?thesis by blast
qed

lemma set_launch_options_returns:
  assumes "cur_loc_id w = Inr loc0"
    and "load_user_config vdf_load userdata_dir fs w loc0 = Inr w1"
    and "cur_appconfs w1 = Inr (Section apps)"
    and "edit_apps w1 apps = Inr (apps', n, out)"
  shows "\<exists>r. set_launch_options vdf_load vdf_dump userdata_dir fs w = Inr r
           \<and> altered r = n \<and> printed r = out
           \<and> (n = 0 \<longrightarrow> written r = [] \<and> files r = fs)
           \<and> cur_loc_id (window r) = cur_loc_id w1"
proof -
  from assms(3) obtain w2 where
    s: "store_appconfs w1 apps' = Inr w2" and a2: "cur_appconfs w2 = Inr (Section apps')"
    by (rule store_appconfs_returns)
  from store_appconfs_Inr [OF s] obtain loc data where
    l1: "cur_loc_id w1 = Inr loc" and l2: "cur_loc_id w2 = Inr loc" and
    d2: "cur_data w2 = Inr data" by blast
  obtain w3 where r: "refresh_statistics w2 = Inr w3"
    unfolding refresh_statistics_def a2 by (simp add: bind_err_simps)
  have "cur_loc_id w3 = cur_loc_id w1"
    using refresh_statistics_same(1) [OF r] l2 l1 by simp
  then show ?thesis
    by (simp add: set_launch_options_def bind_err_simps assms items.simps s l2 d2 r)
qed

lemma scenario_load:
  "cur_loc_id (scenario_window\<lparr>ops_entry := new\<rparr>) = Inr ''42''"
  "\<exists>w1. load_user_config (\<lambda>text. Inr (scenario_document apps)) ''userdata'' scenario_files
            (scenario_window\<lparr>ops_entry := new\<rparr>) ''42'' = Inr w1
        \<and> cur_appconfs w1 = Inr (Section apps) \<and> ops_entry w1 = new
        \<and> cur_loc_id w1 = Inr ''42''"
  by (simp_all add: scenario_window_def window0_def cur_loc_id_def load_user_config_def
      scenario_files_def scenario_document_def bind_err_simps cur_appconfs_def cur_data_def
      apps_path_def)

lemma scenario_vdf_load_config:
  "load_user_config scenario_vdf_load ''userdata'' scenario_files
      (scenario_window\<lparr>ops_entry := new\<rparr>) ''42'' =
     load_user_config (\<lambda>text. Inr (scenario_document scenario_apps)) ''userdata'' scenario_files
      (scenario_window\<lparr>ops_entry := new\<rparr>) ''42''"
  by (simp add: load_user_config_def scenario_files_def scenario_vdf_load_def)

theorem written_iff_altered_witness:
  "\<exists>r. set_launch_options scenario_vdf_load scenario_vdf_dump
          ''userdata'' scenario_files (scenario_window\<lparr>ops_entry := ''-x''\<rparr>) = Inr r
       \<and> altered r = 1
       \<and> written r = [(get_config_file_path ''userdata'' ''42'',
            scenario_vdf_dump (scenario_document
              [(''10'', Section [(''LaunchOptions'', Leaf ''-a'')]),
               (''20'', Section [(''LaunchOptions'', Leaf ''-x'')]),
               (''30'', Section [(''LaunchOptions'', Leaf ''-x'')])]))]
       \<and> files r = scenario_files(get_config_file_path ''userdata'' ''42'' \<mapsto>
            scenario_vdf_dump (scenario_document
              [(''10'', Section [(''LaunchOptions'', Leaf ''-a'')]),
               (''20'', Section [(''LaunchOptions'', Leaf ''-x'')]),
               (''30'', Section [(''LaunchOptions'', Leaf ''-x'')])]))
       \<and> scenario_vdf_dump (scenario_document
              [(''10'', Section [(''LaunchOptions'', Leaf ''-a'')]),
               (''20'', Section [(''LaunchOptions'', Leaf ''-x'')]),
               (''30'', Section [(''LaunchOptions'', Leaf ''-x'')])])
          \<noteq> scenario_vdf_dump (scenario_document scenario_apps)"
proof -
  let ?w = "scenario_window\<lparr>ops_entry := ''-x''\<rparr>"
  let ?apps' = "[(''10'', Section [(''LaunchOptions'', Leaf ''-a'')]),
               (''20'', Section [(''LaunchOptions'', Leaf ''-x'')]),
               (''30'', Section [(''LaunchOptions'', Leaf ''-x'')])]"
  from scenario_load(2) [of scenario_apps "''-x''"] obtain w1 where
    l: "load_user_config scenario_vdf_load ''userdata'' scenario_files ?w ''42'' = Inr w1" and
    a: "cur_appconfs w1 = Inr (Section scenario_apps)" and
    o: "ops_entry w1 = ''-x''"
    unfolding scenario_vdf_load_config by blast
  have e1: "edit_apps w1 scenario_apps = Inr (?apps', 1, [(''10'', Leaf ''-a'')])"
    by (simp add: edit_apps_def o scenario_apps_def loop_body_def OVERWRITE_def)
  from set_launch_options_returns [OF scenario_load(1) l a e1, of scenario_vdf_dump]
  obtain r where
    r: "set_launch_options scenario_vdf_load scenario_vdf_dump ''userdata'' scenario_files ?w
          = Inr r" and
    n: "altered r = 1"
    by blast
  from written_iff_altered [OF r] obtain loc contents doc apps apps' where
    c: "cur_loc_id ?w = Inr loc" and
    t: "scenario_files (get_config_file_path ''userdata'' loc) = Some contents" and
    v: "scenario_vdf_load contents = Inr doc" and
    g: "getpath doc apps_path = Inr (Section apps)" and
    e: "edit_apps ?w apps = Inr (apps', altered r, printed r)" and
    wr: "written r =
      (if 0 < altered r
       then [(get_config_file_path ''userdata'' loc,
              scenario_vdf_dump (putpath apps_path (Section apps') doc))]
       else [])" and
    fi: "files r =
      (if 0 < altered r
       then scenario_files(get_config_file_path ''userdata'' loc \<mapsto>
              scenario_vdf_dump (putpath apps_path (Section apps') doc))
       else scenario_files)"
    by blast
  have loc: "loc = ''42''" using c scenario_load(1) [of "''-x''"] by simp
  have contents: "contents = ''localconfig''"
    using t unfolding loc by (simp add: scenario_files_def)
  have doc: "doc = scenario_document scenario_apps"
    using v unfolding contents by (simp add: scenario_vdf_load_def)
  have apps: "apps = scenario_apps"
    using g unfolding doc
    by (simp add: scenario_document_def apps_path_def bind_err_simps)
  have "edit_apps ?w scenario_apps = Inr (?apps', 1, [(''10'', Leaf ''-a'')])"
    by (simp add: edit_apps_def scenario_apps_def loop_body_def OVERWRITE_def)
  with e have apps': "apps' = ?apps'" unfolding apps by simp
  have p: "putpath apps_path (Section ?apps') (scenario_document scenario_apps) =
      scenario_document ?apps'"
    by (simp add: scenario_document_def apps_path_def)
  have "written r = [(get_config_file_path ''userdata'' ''42'',
      scenario_vdf_dump (scenario_document ?apps'))]"
    using wr n unfolding loc doc apps' p by simp
  moreover have "files r = scenario_files(get_config_file_path ''userdata'' ''42'' \<mapsto>
      scenario_vdf_dump (scenario_document ?apps'))"
    using fi n unfolding loc doc apps' p by simp
  moreover have "scenario_vdf_dump (scenario_document ?apps')
      \<noteq> scenario_vdf_dump (scenario_document scenario_apps)"
    by (simp add: scenario_document_def scenario_apps_def)
  ultimately show ?thesis using r n by blast
qed

text \<open>
  C7: when the \<open>apps\<close> section has no children, the loop ends with the counter at 0 and
  nothing printed, and the method returns without raising: it alters nothing and writes
  nothing. (The dialog it then shows is the one for a run that altered nothing,
  \<open>No changes made\<close>.)
\<close>

theorem no_apps_nothing_altered:
  "edit_apps w [] = Inr ([], 0, [])
   \<and> (cur_loc_id w = Inr loc0
        \<and> load_user_config vdf_load userdata_dir fs w loc0 = Inr w1
        \<and> cur_appconfs w1 = Inr (Section [])
      \<longrightarrow> (\<exists>r. set_launch_options vdf_load vdf_dump userdata_dir fs w = Inr r
             \<and> altered r = 0 \<and> printed r = [] \<and> written r = [] \<and> files r = fs))"
proof (intro conjI impI)
  show e: "edit_apps w [] = Inr ([], 0, [])" for w by (simp add: edit_apps_def)
  assume a: "cur_loc_id w = Inr loc0
        \<and> load_user_config vdf_load userdata_dir fs w loc0 = Inr w1
        \<and> cur_appconfs w1 = Inr (Section [])"
  from a have a1: "cur_loc_id w = Inr loc0" by (rule conjunct1)
  from a have a2: "load_user_config vdf_load userdata_dir fs w loc0 = Inr w1" by simp
  from a have a3: "cur_appconfs w1 = Inr (Section [])" by simp
  from set_launch_options_returns [OF a1 a2 a3 e, of vdf_dump]
  show "\<exists>r. set_launch_options vdf_load vdf_dump userdata_dir fs w = Inr r
             \<and> altered r = 0 \<and> printed r = [] \<and> written r = [] \<and> files r = fs"
    by auto
qed

theorem no_apps_nothing_altered_witness:
  "\<exists>r. set_launch_options (\<lambda>text. Inr (scenario_document [])) (\<lambda>data. [])
          ''userdata'' scenario_files scenario_window = Inr r
       \<and> altered r = 0 \<and> printed r = [] \<and> written r = [] \<and> files r = scenario_files"
proof -
  have w: "scenario_window\<lparr>ops_entry := []\<rparr> = scenario_window"
    by (simp add: scenario_window_def window0_def)
  from scenario_load(2) [of "[]" "[]"] obtain w1 where
    l: "load_user_config (\<lambda>text. Inr (scenario_document [])) ''userdata'' scenario_files
          scenario_window ''42'' = Inr w1" and
    a: "cur_appconfs w1 = Inr (Section [])"
    unfolding w by blast
  have c: "cur_loc_id scenario_window = Inr ''42''" using scenario_load(1) [of "[]"] unfolding w .
  from no_apps_nothing_altered [of scenario_window "''42''"
      "\<lambda>text. Inr (scenario_document [])" "''userdata''" scenario_files w1 "\<lambda>data. []"]
    c l a
  show ?thesis by blast
qed


section \<open>Parsing what was serialized\<close>

lemma lex_escaped_string:
  "lex (In_string start acc) pos (escape s @ CHR 0x22 # rest) =
     (start, Quoted (rev acc @ s)) # lex Between (pos + length (escape s) + 1) rest"
proof (induction s arbitrary: acc pos)
  case Nil
  show ?case by simp
next
  case (Cons c s)
  show ?case
  proof (cases "c = CHR 0x22 \<or> c = CHR 0x5C")
    case True
    have "lex (In_string start acc) pos (escape (c # s) @ CHR 0x22 # rest) =
          lex (In_string start (c # acc)) (pos + 1 + 1) (escape s @ CHR 0x22 # rest)"
      using True by auto
    also have "\<dots> = (start, Quoted (rev (c # acc) @ s))
          # lex Between (pos + 1 + 1 + length (escape s) + 1) rest"
      by (rule Cons.IH)
    finally show ?thesis using True by (simp add: add.assoc)
  next
    case False
    have "lex (In_string start acc) pos (escape (c # s) @ CHR 0x22 # rest) =
          lex (In_string start (c # acc)) (pos + 1) (escape s @ CHR 0x22 # rest)"
      using False by simp
    also have "\<dots> = (start, Quoted (rev (c # acc) @ s))
          # lex Between (pos + 1 + length (escape s) + 1) rest"
      by (rule Cons.IH)
    finally show ?thesis using False by (simp add: add.assoc)
  qed
qed

lemma lex_quoted:
  "lex Between pos (quoted s @ rest) =
     (pos, Quoted s) # lex Between (pos + length (quoted s)) rest"
  using lex_escaped_string [of pos "[]" "pos + 1" s rest]
  by (simp add: quoted_def add.assoc)

lemma lex_tabs:
  "lex Between pos (replicate n (CHR 0x09) @ rest) = lex Between (pos + n) rest"
  by (induction n arbitrary: pos) (simp_all add: is_space_def)

lemma lex_emit:
  "\<exists>pts pos'. map snd pts = tokens_of d
     \<and> lex Between pos (emit depth d @ rest) = pts @ lex Between pos' rest"
proof (induction depth d arbitrary: pos rest rule: emit.induct)
  case (1 depth)
  have "map snd [] = tokens_of [] \<and> lex Between pos (emit depth [] @ rest) = [] @ lex Between pos rest"
    by simp
  then show ?case by blast
next
  case (2 depth k v tail)
  let ?p1 = "pos + depth"
  let ?p2 = "?p1 + length (quoted k) + 1"
  let ?p3 = "?p2 + length (quoted v) + 1"
  from "2.IH" [of ?p3 rest] obtain pts pos' where
    m: "map snd pts = tokens_of tail" and
    l: "lex Between ?p3 (emit depth tail @ rest) = pts @ lex Between pos' rest"
    by blast
  have "lex Between pos (emit depth ((k, Leaf v) # tail) @ rest) =
        (?p1, Quoted k) # (?p2, Quoted v) # lex Between ?p3 (emit depth tail @ rest)"
    by (simp add: lex_tabs lex_quoted is_space_def)
  then have "lex Between pos (emit depth ((k, Leaf v) # tail) @ rest) =
        ((?p1, Quoted k) # (?p2, Quoted v) # pts) @ lex Between pos' rest"
    using l by simp
  moreover have "map snd ((?p1, Quoted k) # (?p2, Quoted v) # pts) = tokens_of ((k, Leaf v) # tail)"
    using m by simp
  ultimately show ?case by blast
next
  case (3 depth k d tail)
  let ?p1 = "pos + depth"
  let ?p2 = "?p1 + length (quoted k) + 1 + depth"
  let ?p3 = "?p2 + 1 + 1"
  let ?after = "replicate depth (CHR 0x09) @ CHR ''}'' # CHR 0x0A # emit depth tail @ rest"
  from "3.IH"(1) [of ?p3 ?after] obtain pts1 pos1 where
    m1: "map snd pts1 = tokens_of d" and
    l1: "lex Between ?p3 (emit (Suc depth) d @ ?after) = pts1 @ lex Between pos1 ?after"
    by blast
  let ?p4 = "pos1 + depth"
  let ?p5 = "?p4 + 1 + 1"
  from "3.IH"(2) [of ?p5 rest] obtain pts2 pos' where
    m2: "map snd pts2 = tokens_of tail" and
    l2: "lex Between ?p5 (emit depth tail @ rest) = pts2 @ lex Between pos' rest"
    by blast
  have a: "lex Between pos (emit depth ((k, Section d) # tail) @ rest) =
        (?p1, Quoted k) # (?p2, LBrace) # lex Between ?p3 (emit (Suc depth) d @ ?after)"
    by (simp add: lex_tabs lex_quoted is_space_def)
  have b: "lex Between pos1 ?after = (?p4, RBrace) # lex Between ?p5 (emit depth tail @ rest)"
    by (simp add: lex_tabs is_space_def)
  have "lex Between pos (emit depth ((k, Section d) # tail) @ rest) =
        ((?p1, Quoted k) # (?p2, LBrace) # pts1 @ (?p4, RBrace) # pts2) @ lex Between pos' rest"
    unfolding a l1 b l2 by simp
  moreover have "map snd ((?p1, Quoted k) # (?p2, LBrace) # pts1 @ (?p4, RBrace) # pts2) =
        tokens_of ((k, Section d) # tail)"
    using m1 m2 by simp
  ultimately show ?case by blast
qed


lemma update_new_key:
  "k \<notin> fst ` set d \<Longrightarrow> AList.update k v d = d @ [(k, v)]"
  by (induction d) auto

lemma fold_update_distinct:
  "distinct (map fst d) \<Longrightarrow> fst ` set d \<inter> fst ` set cur = {} \<Longrightarrow>
     fold (\<lambda>(k, v). AList.update k v) d cur = cur @ d"
proof (induction d arbitrary: cur)
  case Nil
  show ?case by simp
next
  case (Cons x d)
  obtain k v where x: "x = (k, v)" by (cases x)
  have k: "k \<notin> fst ` set cur" using Cons.prems(2) x by auto
  have d: "distinct (map fst d)" using Cons.prems(1) by simp
  have i: "fst ` set d \<inter> fst ` set (cur @ [(k, v)]) = {}"
    using Cons.prems x by auto
  show ?case unfolding x using Cons.IH [OF d i] by (simp add: update_new_key [OF k])
qed

lemma parse_tokens_of:
  "\<forall>p \<in> set d. unique_keys (snd p) \<Longrightarrow> map snd pts = tokens_of d \<Longrightarrow>
     parse_tokens eof cur stack (pts @ rest) =
       parse_tokens eof (fold (\<lambda>(k, v). AList.update k v) d cur) stack rest"
proof (induction d arbitrary: pts cur stack rest rule: tokens_of.induct)
  case 1
  then show ?case by simp
next
  case (2 k v tail)
  from "2.prems"(2) obtain p q pts' where
    pts: "pts = (p, Quoted k) # (q, Quoted v) # pts'" and m: "map snd pts' = tokens_of tail"
    by (auto simp: map_eq_Cons_conv)
  have u: "\<forall>p \<in> set tail. unique_keys (snd p)" using "2.prems"(1) by simp
  show ?case unfolding pts using "2.IH" [OF u m] by simp
next
  case (3 k d tail)
  from "3.prems"(2) obtain p q r pts1 pts2 where
    pts: "pts = (p, Quoted k) # (q, LBrace) # pts1 @ (r, RBrace) # pts2" and
    m1: "map snd pts1 = tokens_of d" and m2: "map snd pts2 = tokens_of tail"
    by (auto simp: map_eq_Cons_conv map_eq_append_conv)
  have ud: "unique_keys (Section d)" using "3.prems"(1) by simp
  then have u1: "\<forall>p \<in> set d. unique_keys (snd p)" and dd: "distinct (map fst d)" by simp_all
  have u2: "\<forall>p \<in> set tail. unique_keys (snd p)" using "3.prems"(1) by simp
  have f: "fold (\<lambda>(k, v). AList.update k v) d [] = d"
    using fold_update_distinct [OF dd, of "[]"] by simp
  have "parse_tokens eof cur stack (pts @ rest) =
        parse_tokens eof [] ((k, cur) # stack) (pts1 @ ((r, RBrace) # pts2 @ rest))"
    unfolding pts by simp
  also have "\<dots> = parse_tokens eof d ((k, cur) # stack) ((r, RBrace) # pts2 @ rest)"
    using "3.IH"(1) [OF u1 m1] f by simp
  also have "\<dots> = parse_tokens eof (AList.update k (Section d) cur) stack (pts2 @ rest)"
    by simp
  also have "\<dots> = parse_tokens eof
      (fold (\<lambda>(k, v). AList.update k v) tail (AList.update k (Section d) cur)) stack rest"
    using u2 m2 by (rule "3.IH"(2))
  finally show ?case by simp
qed

lemma unique_keys_update:
  "unique_keys (Section d) \<Longrightarrow> unique_keys v \<Longrightarrow> unique_keys (Section (AList.update k v d))"
proof -
  have s: "set (AList.update k v d) \<subseteq> insert (k, v) (set d)" by (induction d) auto
  assume "unique_keys (Section d)" "unique_keys v"
  then show ?thesis using s by (auto simp: distinct_update)
qed

lemma parse_tokens_unique:
  "parse_tokens eof cur stack ts = Inr d \<Longrightarrow> unique_keys (Section cur) \<Longrightarrow>
   \<forall>f \<in> set stack. unique_keys (Section (snd f)) \<Longrightarrow> unique_keys (Section d)"
proof (induction eof cur stack ts rule: parse_tokens.induct)
  case (1 eof cur stack)
  then show ?case by (simp split: if_splits)
next
  case (4 eof cur stack p ts)
  show ?case
  proof (cases stack)
    case Nil
    then show ?thesis using "4.prems"(1) by simp
  next
    case (Cons f outer)
    obtain k parent where f: "f = (k, parent)" by (cases f)
    have r: "parse_tokens eof (AList.update k (Section cur) parent) outer ts = Inr d"
      using "4.prems"(1) Cons f by simp
    have up: "unique_keys (Section parent)" using "4.prems"(3) Cons f by simp
    have u: "unique_keys (Section (AList.update k (Section cur) parent))"
      using up "4.prems"(2) by (rule unique_keys_update)
    have o: "\<forall>f \<in> set outer. unique_keys (Section (snd f))" using "4.prems"(3) Cons by simp
    show ?thesis using "4.IH" [OF Cons f [symmetric] r u o] by simp
  qed
next
  case (6 eof cur stack p k q v ts)
  have r: "parse_tokens eof (AList.update k (Leaf v) cur) stack ts = Inr d"
    using "6.prems"(1) by simp
  have u: "unique_keys (Section (AList.update k (Leaf v) cur))"
    using "6.prems"(2) by (rule unique_keys_update) simp
  show ?case using "6.IH" [OF r u "6.prems"(3)] .
next
  case (7 eof cur stack p k q ts)
  have r: "parse_tokens eof [] ((k, cur) # stack) ts = Inr d" using "7.prems"(1) by simp
  have s: "\<forall>f \<in> set ((k, cur) # stack). unique_keys (Section (snd f))"
    using "7.prems"(2,3) by simp
  show ?case using "7.IH" [OF r _ s] by simp
qed simp_all

lemma Parse_unique_keys: "Parse b = Inr d \<Longrightarrow> unique_keys (Section d)"
  unfolding Parse_def by (erule parse_tokens_unique) simp_all

lemma Parse_Serialize:
  assumes "unique_keys (Section d)"
  shows "Parse (Serialize d) = Inr d"
proof -
  from lex_emit [of d 0 0 "[]"] obtain pts where
    m: "map snd pts = tokens_of d" and l: "lex Between 0 (emit 0 d) = pts"
    by auto
  have u: "\<forall>p \<in> set d. unique_keys (snd p)" and dd: "distinct (map fst d)"
    using assms by simp_all
  have f: "fold (\<lambda>(k, v). AList.update k v) d [] = d"
    using fold_update_distinct [OF dd, of "[]"] by simp
  have "parse_tokens (length (emit 0 d)) [] [] (pts @ []) =
        parse_tokens (length (emit 0 d)) (fold (\<lambda>(k, v). AList.update k v) d []) [] []"
    using u m by (rule parse_tokens_of)
  then show ?thesis unfolding Parse_def Serialize_def l f by simp
qed

text \<open>
  C4: when \<open>Parse\<close> produces a document from an input, parsing the serialization of the
  document produces the same document: the same keys in the same order with the same
  values, at every level of nesting.
\<close>

theorem parse_serialize_roundtrip:
  "Parse b = Inr d \<Longrightarrow> Parse (Serialize d) = Inr d"
  by (rule Parse_Serialize) (rule Parse_unique_keys)

theorem parse_serialize_roundtrip_witness:
  "Parse sample_bytes =
     Inr [(''apps'', Section [(''10'', Section [(''LaunchOptions'', Leaf [CHR ''-'', CHR 0x22])])])]
   \<and> Parse (Serialize
       [(''apps'', Section [(''10'', Section [(''LaunchOptions'', Leaf [CHR ''-'', CHR 0x22])])])]) =
     Inr [(''apps'', Section [(''10'', Section [(''LaunchOptions'', Leaf [CHR ''-'', CHR 0x22])])])]"
proof -
  have p: "Parse sample_bytes =
     Inr [(''apps'', Section [(''10'', Section [(''LaunchOptions'', Leaf [CHR ''-'', CHR 0x22])])])]"
    by (simp add: Parse_def sample_bytes_def is_space_def)
  from parse_serialize_roundtrip [OF p] p show ?thesis by simp
qed

end
